theory Spec2Isabelle
  imports Complex_Main "HOL-Library.Word"
begin

unbundle bit_operations_syntax

section \<open>Data model\<close>

text \<open>
  The scripts work on Python \<open>bytes\<close> values and unbounded Python integers.  A byte is an
  8-bit word, a byte string a list of them, every integer parameter (chunk size, chunk
  position, stored original size, calculus value) an \<open>int\<close>.  Every exception the modelled
  functions can raise is a value of \<open>py_error\<close>, and a function that can raise returns
  \<open>py_error + 'a\<close> with \<open>Inl\<close> for the exception.
\<close>

type_synonym byte = "8 word"
type_synonym bytes = "byte list"

datatype py_error =
    ValueError
  | ZeroDivisionError
  | StructError
  | IndexError
  | NameError
  | CoderError

text \<open>Sequencing of two steps of which the first may raise.\<close>

definition and_then :: "py_error + 'a \<Rightarrow> ('a \<Rightarrow> py_error + 'b) \<Rightarrow> py_error + 'b" where
  "and_then r f = (case r of Inl e \<Rightarrow> Inl e | Inr x \<Rightarrow> f x)"

type_synonym coder = "bytes \<Rightarrow> py_error + bytes"

section \<open>Python primitives used by the scripts\<close>

text \<open>
  \<open>range(0, n, step)\<close>: raises \<open>ValueError\<close> for a zero step, is empty for a negative
  step, and otherwise lists \<open>0, step, 2 * step, \<dots>\<close> below \<open>n\<close>.
\<close>

definition py_range_step :: "nat \<Rightarrow> int \<Rightarrow> py_error + nat list" where
  "py_range_step n step =
     (if step = 0 then Inl ValueError
      else if step < 0 then Inr []
      else Inr (map (\<lambda>k. k * nat step) [0..<(n + nat step - 1) div nat step]))"

text \<open>The slice \<open>data[i:j]\<close> for \<open>0 \<le> i \<le> j\<close>; it is cut short at the end of \<open>data\<close>.\<close>

definition py_slice :: "'a list \<Rightarrow> nat \<Rightarrow> nat \<Rightarrow> 'a list" where
  "py_slice data i j = take (j - i) (drop i data)"

text \<open>
  \<open>a / b\<close> on two lengths.  Python returns a float; the model keeps the exact quotient,
  and raises for a zero divisor as Python does.
\<close>

definition py_truediv :: "nat \<Rightarrow> nat \<Rightarrow> py_error + real" where
  "py_truediv a b = (if b = 0 then Inl ZeroDivisionError else Inr (real a / real b))"

text \<open>
  A \<open>for\<close> loop whose body may raise: the first exception ends the loop and is the result.
\<close>

fun for_each :: "('s \<Rightarrow> 'i \<Rightarrow> py_error + 's) \<Rightarrow> 's \<Rightarrow> 'i list \<Rightarrow> py_error + 's" where
  "for_each body s [] = Inr s"
| "for_each body s (i # rest) = and_then (body s i) (\<lambda>s'. for_each body s' rest)"

subsection \<open>\<open>struct.pack\<close> and \<open>struct.unpack\<close>, big-endian unsigned fields\<close>

text \<open>The \<open>n\<close> big-endian bytes of \<open>v\<close>, most significant first.\<close>

fun be_bytes :: "nat \<Rightarrow> int \<Rightarrow> bytes" where
  "be_bytes 0 v = []"
| "be_bytes (Suc n) v = be_bytes n (v div 256) @ [word_of_int (v mod 256)]"

definition in_uint :: "nat \<Rightarrow> int \<Rightarrow> bool" where
  "in_uint n v \<longleftrightarrow> 0 \<le> v \<and> v < 2 ^ (8 * n)"

text \<open>
  \<open>struct.pack\<close> of a list of values into unsigned fields of \<open>n\<close> bytes each (\<open>B\<close>, \<open>H\<close>,
  \<open>I\<close>, \<open>Q\<close> for \<open>n = 1, 2, 4, 8\<close>): \<open>struct.error\<close> when a value does not fit its field.
\<close>

definition struct_pack :: "nat \<Rightarrow> int list \<Rightarrow> py_error + bytes" where
  "struct_pack n vs =
     (if list_all (in_uint n) vs then Inr (concat (map (be_bytes n) vs)) else Inl StructError)"

definition be_int :: "bytes \<Rightarrow> int" where
  "be_int bs = foldl (\<lambda>acc b. acc * 256 + uint b) 0 bs"

text \<open>
  \<open>struct.unpack\<close> of \<open>count\<close> unsigned fields of \<open>n\<close> bytes each: \<open>struct.error\<close> unless
  the buffer has exactly \<open>n * count\<close> bytes.
\<close>

definition struct_unpack :: "nat \<Rightarrow> nat \<Rightarrow> bytes \<Rightarrow> py_error + int list" where
  "struct_unpack n count buf =
     (if length buf = n * count
      then Inr (map (\<lambda>k. be_int (py_slice buf (k * n) (k * n + n))) [0..<count])
      else Inl StructError)"

section \<open>Black\_Hole\_94.py\<close>

definition MAX_POSITIONS :: nat where
  "MAX_POSITIONS = 64"

subsection \<open>\<open>reverse_chunks\<close>\<close>

text \<open>
  \<^verbatim>\<open>chunked_data = [data[i:i + chunk_size] for i in range(0, len(data), chunk_size)]\<close>
\<close>

definition chunk_list :: "'a list \<Rightarrow> int \<Rightarrow> py_error + 'a list list" where
  "chunk_list data chunk_size =
     and_then (py_range_step (length data) chunk_size)
       (\<lambda>starts. Inr (map (\<lambda>i. py_slice data i (i + nat chunk_size)) starts))"

text \<open>
  One round of the loop over \<open>positions\<close>:
  \<^verbatim>\<open>if 0 <= pos < len(chunked_data): chunked_data[pos] = chunked_data[pos][::-1]\<close>
\<close>

definition reverse_at :: "'a list list \<Rightarrow> int \<Rightarrow> 'a list list" where
  "reverse_at chunked_data pos =
     (if 0 \<le> pos \<and> pos < int (length chunked_data)
      then chunked_data[nat pos := rev (chunked_data ! nat pos)]
      else chunked_data)"

definition reverse_chunks :: "'a list \<Rightarrow> int \<Rightarrow> int list \<Rightarrow> py_error + 'a list" where
  "reverse_chunks data chunk_size positions =
     and_then (chunk_list data chunk_size)
       (\<lambda>chunked_data. Inr (concat (foldl reverse_at chunked_data positions)))"

subsection \<open>\<open>apply_calculus\<close>\<close>

text \<open>
  \<^verbatim>\<open>transformed[i] ^= (calculus_value & 0xFF)\<close> for every index \<open>i\<close> of a copy of
  \<open>data\<close>.
\<close>

definition apply_calculus :: "bytes \<Rightarrow> int \<Rightarrow> bytes" where
  "apply_calculus data calculus_value =
     map (\<lambda>b. b XOR word_of_int (calculus_value AND 255)) data"

subsection \<open>\<open>compress_data\<close>\<close>

text \<open>
  The bytes handed to \<open>paq.compress\<close>, \<open>metadata + packed_positions + data\<close>: three
  \<open>I\<close> fields, an \<open>H\<close> field for the number of positions (after the explicit check
  against 65535), one \<open>I\<close> field per position, then the data.
\<close>

definition build_container :: "bytes \<Rightarrow> int \<Rightarrow> int list \<Rightarrow> int \<Rightarrow> int \<Rightarrow> py_error + bytes" where
  "build_container data chunk_size positions original_size calculus_value =
     and_then (struct_pack 4 [original_size, chunk_size, calculus_value]) (\<lambda>header.
       let num_positions = length positions in
       if num_positions > 65535 then Inl ValueError
       else and_then (struct_pack 2 [int num_positions]) (\<lambda>count.
            and_then (struct_pack 4 positions) (\<lambda>packed_positions.
              Inr ((header @ count) @ packed_positions @ data))))"

text \<open>The entropy coder \<open>paq.compress\<close> is external: it is a parameter, and may raise.\<close>

definition compress_data :: "coder \<Rightarrow> bytes \<Rightarrow> int \<Rightarrow> int list \<Rightarrow> int \<Rightarrow> int \<Rightarrow> py_error + bytes" where
  "compress_data paq_compress data chunk_size positions original_size calculus_value =
     and_then (build_container data chunk_size positions original_size calculus_value)
       paq_compress"

subsection \<open>\<open>decompress_data\<close>\<close>

text \<open>
  The header parsing of \<open>decompress_data\<close> (the lines between \<open>paq.decompress\<close> and the
  call of \<open>reverse_chunks\<close>): the result is
  \<open>(original_size, chunk_size, calculus_value, positions, decompressed_data[data_start:])\<close>.
\<close>

definition parse_container :: "bytes \<Rightarrow> py_error + (int \<times> int \<times> int \<times> int list \<times> bytes)" where
  "parse_container decompressed_data =
     and_then (struct_unpack 4 3 (py_slice decompressed_data 0 12)) (\<lambda>header.
       case header of
         [original_size, chunk_size, calculus_value] \<Rightarrow>
           and_then (struct_unpack 2 1 (py_slice decompressed_data 12 14)) (\<lambda>count.
             case count of
               [num_positions] \<Rightarrow>
                 let positions_start = 14;
                     positions_end = positions_start + nat num_positions * 4
                 in and_then
                      (struct_unpack 4 (nat num_positions)
                         (py_slice decompressed_data positions_start positions_end))
                      (\<lambda>positions.
                         let data_start = positions_end
                         in Inr (original_size, chunk_size, calculus_value, positions,
                                 drop data_start decompressed_data))
             | _ \<Rightarrow> Inl StructError)
       | _ \<Rightarrow> Inl StructError)"

text \<open>
  The rest of the \<open>try\<close> block: \<open>reverse_chunks\<close>, then \<open>apply_calculus\<close>, then
  \<open>restored[:original_size]\<close>.
\<close>

definition restore :: "int \<times> int \<times> int \<times> int list \<times> bytes \<Rightarrow> py_error + bytes" where
  "restore parsed =
     (case parsed of (original_size, chunk_size, calculus_value, positions, data) \<Rightarrow>
        and_then (reverse_chunks data chunk_size positions) (\<lambda>restored.
          Inr (take (nat original_size) (apply_calculus restored calculus_value))))"

text \<open>
  \<open>decompress_data\<close>.  The handler is \<open>except (struct.error, zlib.error, ValueError)\<close> in a
  module that never imports \<open>zlib\<close>: matching any exception against it evaluates
  \<open>zlib.error\<close> and raises \<open>NameError\<close>, so every failure of the body leaves the function
  as \<open>NameError\<close>.
\<close>

definition decompress_data :: "coder \<Rightarrow> bytes \<Rightarrow> py_error + bytes" where
  "decompress_data paq_decompress compressed_data =
     (case and_then (paq_decompress compressed_data)
             (\<lambda>decompressed_data. and_then (parse_container decompressed_data) restore) of
        Inl e \<Rightarrow> Inl NameError
      | Inr restored \<Rightarrow> Inr restored)"

subsection \<open>\<open>find_best_iteration\<close>\<close>

text \<open>The three variables the loop keeps: \<open>best_size\<close>, \<open>best_data\<close>, \<open>best_ratio\<close>.\<close>

record best =
  best_size :: nat
  best_data :: bytes
  best_ratio :: real

text \<open>
  The random choices of one iteration that the rest of the iteration uses:
  \<open>(calculus_value, positions)\<close>.  The generator is a parameter of the search, a function
  from the iteration number to the choices made there.
\<close>

type_synonym draw = "int \<times> int list"

text \<open>
  What the calls of \<open>random\<close> can return for a given input and chunk size:
  \<open>calculus_value\<close> in \<open>[1, 2 ** x - 1]\<close> for some \<open>x\<close> in \<open>[7, 17]\<close>, and \<open>positions\<close>
  a sorted sample without replacement of at most \<open>min(len(input_data) // chunk_size,
  MAX_POSITIONS)\<close> elements of \<open>range(len(input_data) // chunk_size)\<close>.
\<close>

definition admissible :: "bytes \<Rightarrow> int \<Rightarrow> draw \<Rightarrow> bool" where
  "admissible input_data chunk_size d =
     (case d of (calculus_value, positions) \<Rightarrow>
        1 \<le> calculus_value \<and> calculus_value \<le> 2 ^ 17 - 1 \<and>
        sorted positions \<and> distinct positions \<and>
        list_all (\<lambda>p. 0 \<le> p \<and> p < int (length input_data) div chunk_size) positions \<and>
        int (length positions) \<le> min (int (length input_data) div chunk_size) (int MAX_POSITIONS))"

text \<open>The four assignments before the loop.\<close>

definition initial_best :: "coder \<Rightarrow> bytes \<Rightarrow> int \<Rightarrow> py_error + best" where
  "initial_best paq_compress input_data chunk_size =
     and_then (compress_data paq_compress input_data chunk_size [] (int (length input_data)) 0)
       (\<lambda>best_result.
          and_then (py_truediv (length best_result) (length input_data)) (\<lambda>ratio.
            Inr \<lparr>best_size = length best_result, best_data = best_result, best_ratio = ratio\<rparr>))"

text \<open>
  The candidate of one iteration: \<open>apply_calculus\<close>, \<open>reverse_chunks\<close>, \<open>compress_data\<close>
  on the choices drawn.
\<close>

definition candidate :: "coder \<Rightarrow> bytes \<Rightarrow> int \<Rightarrow> draw \<Rightarrow> py_error + bytes" where
  "candidate paq_compress input_data chunk_size d =
     (case d of (calculus_value, positions) \<Rightarrow>
        let transformed = apply_calculus input_data calculus_value in
        and_then (reverse_chunks transformed chunk_size positions) (\<lambda>reversed_data.
          compress_data paq_compress reversed_data chunk_size positions
            (int (length input_data)) calculus_value))"

text \<open>
  The loop body.  Drawing the positions evaluates \<open>len(input_data) // chunk_size\<close>, which
  raises for a zero chunk size, and \<open>random.randint(0, m)\<close>, which raises \<open>ValueError\<close> for
  a negative \<open>m\<close>; then the candidate is built and compared,
  \<^verbatim>\<open>if comp_size < best_size\<close>.
\<close>

definition iteration :: "coder \<Rightarrow> bytes \<Rightarrow> int \<Rightarrow> best \<Rightarrow> draw \<Rightarrow> py_error + best" where
  "iteration paq_compress input_data chunk_size b d =
     (if chunk_size = 0 then Inl ZeroDivisionError
      else if min (int (length input_data) div chunk_size) (int MAX_POSITIONS) < 0
      then Inl ValueError
      else
        and_then (candidate paq_compress input_data chunk_size d) (\<lambda>compressed.
          let comp_size = length compressed in
          if comp_size < best_size b
          then and_then (py_truediv comp_size (length input_data)) (\<lambda>ratio.
                 Inr \<lparr>best_size = comp_size, best_data = compressed, best_ratio = ratio\<rparr>)
          else Inr b))"

text \<open>\<open>for i in range(1, max_iterations + 1)\<close> over the body, from the initial best.\<close>

definition search_loop :: "coder \<Rightarrow> (int \<Rightarrow> draw) \<Rightarrow> bytes \<Rightarrow> int \<Rightarrow> best \<Rightarrow> int list \<Rightarrow> py_error + best" where
  "search_loop paq_compress rng input_data chunk_size b0 indices =
     for_each (\<lambda>b i. iteration paq_compress input_data chunk_size b (rng i)) b0 indices"

definition find_best_iteration :: "coder \<Rightarrow> (int \<Rightarrow> draw) \<Rightarrow> bytes \<Rightarrow> int \<Rightarrow> int \<Rightarrow> py_error + bytes \<times> real" where
  "find_best_iteration paq_compress rng input_data max_iterations chunk_size =
     and_then (initial_best paq_compress input_data chunk_size) (\<lambda>b0.
     and_then (search_loop paq_compress rng input_data chunk_size b0 [1..max_iterations])
       (\<lambda>b. Inr (best_data b, best_ratio b)))"

text \<open>
  The best-so-far records in the order the loop holds them: the initial one, then the one
  after each iteration.
\<close>

fun best_trace :: "('s \<Rightarrow> 'i \<Rightarrow> py_error + 's) \<Rightarrow> 's \<Rightarrow> 'i list \<Rightarrow> 's list" where
  "best_trace body s [] = [s]"
| "best_trace body s (i # rest) =
     s # (case body s i of Inl e \<Rightarrow> [] | Inr s' \<Rightarrow> best_trace body s' rest)"

section \<open>Black\_Hole\_89.py\<close>

text \<open>
  \<open>reverse_chunks\<close> and \<open>apply_calculus\<close> of this file are those of Black\_Hole\_94.py,
  line for line.  \<open>compress_data\<close> writes the number of positions to a \<open>B\<close> field and
  has no check of its own.
\<close>

definition build_container_89 :: "bytes \<Rightarrow> int \<Rightarrow> int list \<Rightarrow> int \<Rightarrow> int \<Rightarrow> py_error + bytes" where
  "build_container_89 data chunk_size positions original_size calculus_value =
     and_then (struct_pack 4 [original_size, chunk_size, calculus_value]) (\<lambda>header.
     and_then (struct_pack 1 [int (length positions)]) (\<lambda>count.
     and_then (struct_pack 4 positions) (\<lambda>packed_positions.
       Inr (((header @ count) @ packed_positions) @ data))))"

definition compress_data_89 :: "coder \<Rightarrow> bytes \<Rightarrow> int \<Rightarrow> int list \<Rightarrow> int \<Rightarrow> int \<Rightarrow> py_error + bytes" where
  "compress_data_89 paq_compress data chunk_size positions original_size calculus_value =
     and_then (build_container_89 data chunk_size positions original_size calculus_value)
       paq_compress"

text \<open>
  \<open>best_compression_ratio\<close> starts as \<open>float('inf')\<close> and \<open>best_compressed_data\<close> as
  \<open>None\<close>: both are options, \<open>None\<close> for the starting value.  \<open>ratio_less\<close> is the
  comparison \<open>compression_ratio < best_compression_ratio\<close>.
\<close>

definition ratio_less :: "real \<Rightarrow> real option \<Rightarrow> bool" where
  "ratio_less r best = (case best of None \<Rightarrow> True | Some b \<Rightarrow> r < b)"

text \<open>
  The random choices of one iteration: \<open>(chunk_size, calculus_value, positions)\<close>, with
  \<open>chunk_size\<close> in \<open>[2 ** 7, 2 ** 17 - 1]\<close>.
\<close>

type_synonym draw_89 = "int \<times> int \<times> int list"

definition admissible_89 :: "bytes \<Rightarrow> draw_89 \<Rightarrow> bool" where
  "admissible_89 input_data d =
     (case d of (chunk_size, calculus_value, positions) \<Rightarrow>
        2 ^ 7 \<le> chunk_size \<and> chunk_size \<le> 2 ^ 17 - 1 \<and>
        admissible input_data chunk_size (calculus_value, positions))"

definition candidate_89 :: "coder \<Rightarrow> bytes \<Rightarrow> draw_89 \<Rightarrow> py_error + bytes" where
  "candidate_89 paq_compress input_data d =
     (case d of (chunk_size, calculus_value, positions) \<Rightarrow>
        let transformed_data = apply_calculus input_data calculus_value in
        and_then (reverse_chunks transformed_data chunk_size positions) (\<lambda>reversed_data.
          compress_data_89 paq_compress reversed_data chunk_size positions
            (int (length input_data)) calculus_value))"

definition iteration_89 :: "coder \<Rightarrow> bytes \<Rightarrow> bytes option \<times> real option \<Rightarrow> draw_89 \<Rightarrow> py_error + bytes option \<times> real option" where
  "iteration_89 paq_compress input_data b d =
     and_then (candidate_89 paq_compress input_data d) (\<lambda>compressed_data.
     and_then (py_truediv (length compressed_data) (length input_data))
       (\<lambda>compression_ratio.
          if ratio_less compression_ratio (snd b)
          then Inr (Some compressed_data, Some compression_ratio)
          else Inr b))"

text \<open>\<open>for _ in range(max_iterations)\<close> from \<open>(None, float('inf'))\<close>.\<close>

definition find_best_iteration_89 :: "coder \<Rightarrow> (int \<Rightarrow> draw_89) \<Rightarrow> bytes \<Rightarrow> int \<Rightarrow> py_error + bytes option \<times> real option" where
  "find_best_iteration_89 paq_compress rng input_data max_iterations =
     for_each (\<lambda>b i. iteration_89 paq_compress input_data b (rng i)) (None, None)
       [0..max_iterations - 1]"

text \<open>
  The order of two states of this loop by the size of the best compressed data: the later
  state holds data no longer than the earlier one.  A state without data (\<open>None\<close>, with
  the ratio \<open>float('inf')\<close>) counts as larger than every state with data.
\<close>

definition not_larger_89 :: "bytes option \<times> real option \<Rightarrow> bytes option \<times> real option \<Rightarrow> bool" where
  "not_larger_89 earlier later =
     (case fst earlier of
        None \<Rightarrow> True
      | Some a \<Rightarrow> (case fst later of None \<Rightarrow> False | Some b \<Rightarrow> length b \<le> length a))"

section \<open>Black\_Hole\_65.py\<close>

subsection \<open>\<open>reverse_chunks_in_memory\<close>\<close>

text \<open>
  The padding of the last chunk: \<open>chunked_data[-1]\<close> raises \<open>IndexError\<close> on an empty list.
\<close>

definition pad_last :: "bytes list \<Rightarrow> int \<Rightarrow> py_error + bytes list" where
  "pad_last chunked_data chunk_size =
     (if chunked_data = [] then Inl IndexError
      else if int (length (last chunked_data)) < chunk_size
      then Inr (butlast chunked_data
                @ [last chunked_data
                   @ replicate (nat (chunk_size - int (length (last chunked_data)))) 0])
      else Inr chunked_data)"

text \<open>
  The body runs under \<open>except Exception\<close>, which prints and returns \<open>None\<close>: the result is
  an option.
\<close>

definition reverse_chunks_in_memory :: "bytes \<Rightarrow> int \<Rightarrow> int list \<Rightarrow> bytes option" where
  "reverse_chunks_in_memory data chunk_size positions =
     (case and_then (chunk_list data chunk_size) (\<lambda>chunked_data.
           and_then (pad_last chunked_data chunk_size) (\<lambda>padded.
             Inr (concat (foldl reverse_at padded positions)))) of
        Inl e \<Rightarrow> None
      | Inr reversed_data \<Rightarrow> Some reversed_data)"

subsection \<open>\<open>compress_with_paq\<close>\<close>

text \<open>
  \<open>metadata + data\<close>: the original size in a \<open>Q\<close> field, the chunk size (the constant 1)
  and the number of positions in \<open>I\<close> fields, one \<open>I\<close> field per position.
\<close>

definition build_container_65 :: "bytes \<Rightarrow> int list \<Rightarrow> int \<Rightarrow> py_error + bytes" where
  "build_container_65 data positions original_size =
     (let chunk_size = 1 in
      and_then (struct_pack 8 [original_size]) (\<lambda>m1.
      and_then (struct_pack 4 [chunk_size]) (\<lambda>m2.
      and_then (struct_pack 4 [int (length positions)]) (\<lambda>m3.
      and_then (struct_pack 4 positions) (\<lambda>m4.
        Inr ((((m1 @ m2) @ m3) @ m4) @ data))))))"

text \<open>
  The whole body runs under \<open>except Exception\<close>.  The result is \<open>Some written\<close> when the
  function returns \<open>True\<close>, having written \<open>written\<close> to the compressed file, and \<open>None\<close>
  when it returns \<open>False\<close>, the file untouched.
\<close>

definition compress_with_paq :: "coder \<Rightarrow> bytes \<Rightarrow> int list \<Rightarrow> int \<Rightarrow> bytes option" where
  "compress_with_paq paq_compress data positions original_size =
     (case and_then (build_container_65 data positions original_size) paq_compress of
        Inl e \<Rightarrow> None
      | Inr compressed_data \<Rightarrow> Some compressed_data)"

subsection \<open>\<open>decompress_and_restore_paq\<close>\<close>

text \<open>
  The part of \<open>decompress_and_restore_paq\<close> after the header is unpacked, on the payload
  \<open>chunked_data\<close>, the chunk size, the positions and the original size of the header:
  \<^verbatim>\<open>total_chunks = len(chunked_data) // chunk_size\<close>, the list of
  \<^verbatim>\<open>chunked_data[i * chunk_size:(i + 1) * chunk_size]\<close> for \<open>i\<close> in
  \<open>range(total_chunks)\<close>, the loop over the positions, and the cut to \<open>original_size\<close>.
  The header fields are unsigned, so none of the three integers is negative here.
\<close>

definition restore_chunks :: "bytes \<Rightarrow> int \<Rightarrow> int list \<Rightarrow> int \<Rightarrow> py_error + bytes" where
  "restore_chunks payload chunk_size positions original_size =
     (if chunk_size = 0 then Inl ZeroDivisionError
      else
        let total_chunks = int (length payload) div chunk_size;
            chunked_data =
              map (\<lambda>i. py_slice payload (i * nat chunk_size) ((i + 1) * nat chunk_size))
                [0..<nat total_chunks]
        in Inr (take (nat original_size) (concat (foldl reverse_at chunked_data positions))))"

subsection \<open>\<open>find_best_chunk_strategy\<close>\<close>

text \<open>
  What the loop keeps (\<open>best_positions\<close>, \<open>best_compression_ratio\<close>) and the content of
  the compressed file, which \<open>compress_with_paq\<close> overwrites.
\<close>

record strategy_state =
  best_positions :: "int list"
  best_compression_ratio :: "real option"
  compressed_file :: "bytes option"

text \<open>
  One round of the \<open>while\<close> loop, on the positions drawn in it.  \<open>if reversed_data and
  compress_with_paq(...)\<close> is false for \<open>None\<close>, for the empty byte string and for a
  \<open>False\<close> from \<open>compress_with_paq\<close>; \<open>os.path.getsize\<close> reads the length of what was just
  written.
\<close>

definition strategy_round :: "coder \<Rightarrow> bytes \<Rightarrow> strategy_state \<Rightarrow> int list \<Rightarrow> strategy_state" where
  "strategy_round paq_compress original_data st positions =
     (let file_size = length original_data;
          chunk_size = 1;
          max_positions = file_size div nat chunk_size
      in if max_positions > 0
         then (case reverse_chunks_in_memory original_data chunk_size positions of
                 None \<Rightarrow> st
               | Some reversed_data \<Rightarrow>
                   if reversed_data = [] then st
                   else (case compress_with_paq paq_compress reversed_data positions
                                (int file_size) of
                           None \<Rightarrow> st
                         | Some written \<Rightarrow>
                             let compressed_size = length written;
                                 compression_ratio = real compressed_size / real file_size
                             in if ratio_less compression_ratio (best_compression_ratio st)
                                then st\<lparr>best_positions := positions,
                                        best_compression_ratio := Some compression_ratio,
                                        compressed_file := Some written\<rparr>
                                else st\<lparr>compressed_file := Some written\<rparr>))
         else st)"

text \<open>
  The loop runs while the clock is below the timeout: the rounds it makes are a parameter,
  the list of the positions drawn in each.  The result is the state the function holds when
  it returns \<open>True\<close>.
\<close>

definition find_best_chunk_strategy :: "coder \<Rightarrow> bytes \<Rightarrow> bytes option \<Rightarrow> int list list \<Rightarrow> strategy_state" where
  "find_best_chunk_strategy paq_compress original_data file_before rounds =
     foldl (strategy_round paq_compress original_data)
       \<lparr>best_positions = [], best_compression_ratio = None, compressed_file = file_before\<rparr>
       rounds"

section \<open>The number of chunks of the specification\<close>

text \<open>\<open>numChunks = ceil(N / chunkSize)\<close>, for a positive chunk size.\<close>

definition num_chunks :: "nat \<Rightarrow> int \<Rightarrow> int" where
  "num_chunks N chunk_size = (int N + chunk_size - 1) div chunk_size"

section \<open>Chunking with a positive chunk size\<close>

text \<open>The list that \<open>chunk_list\<close> returns for a positive chunk size, on naturals.\<close>

definition chunks_of :: "nat \<Rightarrow> 'a list \<Rightarrow> 'a list list" where
  "chunks_of c xs = map (\<lambda>k. take c (drop (k * c) xs)) [0..<(length xs + c - 1) div c]"

text \<open>
  A non-empty chunk list whose last chunk is filled with zero bytes up to \<open>c\<close> bytes: what
  \<open>pad_last\<close> returns on the chunks of a non-empty input.
\<close>

definition padded :: "nat \<Rightarrow> bytes list \<Rightarrow> bytes list" where
  "padded c cs = butlast cs @ [last cs @ replicate (c - length (last cs)) 0]"

section \<open>Properties of the transform\<close>

lemma chunk_list_pos:
  assumes "0 < chunk_size"
  shows "chunk_list data chunk_size = Inr (chunks_of (nat chunk_size) data)"
  using assms
  by (simp add: chunk_list_def py_range_step_def and_then_def chunks_of_def py_slice_def)

lemma chunk_list_zero: "chunk_list data 0 = Inl ValueError"
  by (simp add: chunk_list_def py_range_step_def and_then_def)

lemma chunk_list_neg: "chunk_size < 0 \<Longrightarrow> chunk_list data chunk_size = Inr []"
  by (simp add: chunk_list_def py_range_step_def and_then_def)

lemma chunks_of_Nil: "chunks_of c [] = []"
  by (cases "c = 0") (simp_all add: chunks_of_def)

lemma div_add_chunk: "0 < c \<Longrightarrow> ((x::nat) + c) div c = Suc (x div c)"
  by simp

lemma chunk_count_step:
  assumes "0 < c" "0 < (n::nat)"
  shows "(n + c - 1) div c = Suc ((n - c + c - 1) div c)"
proof (cases "c \<le> n")
  case True
  then have "n + c - 1 = (n - c + c - 1) + c" using assms by simp
  then have "(n + c - 1) div c = ((n - c + c - 1) + c) div c" by (simp only:)
  also have "\<dots> = Suc ((n - c + c - 1) div c)" using assms(1) by (rule div_add_chunk)
  finally show ?thesis .
next
  case False
  then have lt: "n < c" by simp
  then have "n + c - 1 = (n - 1) + c" using assms by simp
  then have "(n + c - 1) div c = ((n - 1) + c) div c" by (simp only:)
  also have "\<dots> = Suc ((n - 1) div c)" using assms(1) by (rule div_add_chunk)
  also have "(n - 1) div c = 0" using lt by simp
  finally have l: "(n + c - 1) div c = Suc 0" .
  have "n - c + c - 1 = c - 1" using lt by simp
  then have "(n - c + c - 1) div c = 0" using assms by simp
  with l show ?thesis by simp
qed

lemma chunks_of_step:
  assumes "0 < c" "xs \<noteq> []"
  shows "chunks_of c xs = take c xs # chunks_of c (drop c xs)"
proof -
  let ?m = "(length (drop c xs) + c - 1) div c"
  have n: "(length xs + c - 1) div c = Suc ?m"
    using chunk_count_step [of c "length xs"] assms by simp
  have "chunks_of c xs = map (\<lambda>k. take c (drop (k * c) xs)) (0 # map Suc [0..<?m])"
    unfolding chunks_of_def n by (simp only: upt_conv_Cons map_Suc_upt zero_less_Suc if_True)
  also have "\<dots> = take c xs # map (\<lambda>k. take c (drop (k * c) (drop c xs))) [0..<?m]"
    by (simp add: comp_def add.commute)
  finally show ?thesis by (simp add: chunks_of_def)
qed

lemma concat_chunks_of: "0 < c \<Longrightarrow> concat (chunks_of c xs) = xs"
proof (induction xs rule: length_induct)
  case (1 xs)
  show ?case
  proof (cases "xs = []")
    case True
    then show ?thesis by (simp add: chunks_of_Nil)
  next
    case False
    then have "length (drop c xs) < length xs" using 1(2) by simp
    then have "concat (chunks_of c (drop c xs)) = drop c xs" using 1 by blast
    then show ?thesis using False 1(2) by (simp add: chunks_of_step)
  qed
qed

lemma length_chunks_of: "length (chunks_of c xs) = (length xs + c - 1) div c"
  by (simp add: chunks_of_def)

lemma chunks_of_concat:
  assumes "0 < c" "map length cs = map length (chunks_of c xs)"
  shows "chunks_of c (concat cs) = cs"
  using assms
proof (induction xs arbitrary: cs rule: length_induct)
  case (1 xs)
  show ?case
  proof (cases "xs = []")
    case True
    then show ?thesis using 1(3) by (simp add: chunks_of_Nil)
  next
    case False
    then have step: "chunks_of c xs = take c xs # chunks_of c (drop c xs)"
      using 1(2) by (simp add: chunks_of_step)
    then obtain ch cs' where cs: "cs = ch # cs'"
      and lch: "length ch = min (length xs) c"
      and rest: "map length cs' = map length (chunks_of c (drop c xs))"
      using 1(3) by (cases cs) auto
    have ne: "ch \<noteq> []" using lch False 1(2) by (auto simp: min_def split: if_splits)
    show ?thesis
    proof (cases "c \<le> length xs")
      case True
      then have l: "length ch = c" using lch by simp
      have "length (drop c xs) < length xs" using False 1(2) by simp
      then have "chunks_of c (concat cs') = cs'" using 1(1) 1(2) rest by blast
      then show ?thesis using cs l ne 1(2) by (simp add: chunks_of_step)
    next
      case False
      then have l: "length ch < c" "drop c xs = []" using lch by simp_all
      then have "cs' = []" using rest by (simp add: chunks_of_Nil)
      then show ?thesis using cs l ne 1(2) by (simp add: chunks_of_step chunks_of_Nil)
    qed
  qed
qed

section \<open>The loop over positions\<close>

lemma length_reverse_at: "length (reverse_at cs p) = length cs"
  by (simp add: reverse_at_def)

lemma map_length_reverse_at: "map length (reverse_at cs p) = map length cs"
  by (auto simp: reverse_at_def map_update list_eq_iff_nth_eq nth_list_update)

lemma reverse_at_twice: "reverse_at (reverse_at cs p) p = cs"
  by (auto simp: reverse_at_def)

lemma reverse_at_commute:
  "reverse_at (reverse_at cs p) q = reverse_at (reverse_at cs q) p"
proof (cases "p = q")
  case True
  then show ?thesis by simp
next
  case False
  then show ?thesis
    by (auto simp: reverse_at_def list_update_swap nat_eq_iff)
qed

lemma map_length_foldl_reverse_at: "map length (foldl reverse_at cs ps) = map length cs"
  by (induction ps arbitrary: cs) (simp_all add: map_length_reverse_at)

lemma foldl_reverse_at_commute:
  "reverse_at (foldl reverse_at cs ps) p = foldl reverse_at (reverse_at cs p) ps"
proof (induction ps arbitrary: cs)
  case Nil
  show ?case by simp
next
  case (Cons q ps)
  have "reverse_at (foldl reverse_at (reverse_at cs q) ps) p
        = foldl reverse_at (reverse_at (reverse_at cs q) p) ps"
    by (rule Cons.IH)
  then show ?case by (simp add: reverse_at_commute [of cs q p])
qed

lemma foldl_reverse_at_twice:
  "foldl reverse_at (foldl reverse_at cs ps) ps = cs"
proof (induction ps arbitrary: cs)
  case Nil
  show ?case by simp
next
  case (Cons p ps)
  have "foldl reverse_at (foldl reverse_at cs (p # ps)) (p # ps)
        = foldl reverse_at (reverse_at (foldl reverse_at (reverse_at cs p) ps) p) ps"
    by simp
  also have "\<dots> = foldl reverse_at (foldl reverse_at (reverse_at (reverse_at cs p) p) ps) ps"
    by (simp only: foldl_reverse_at_commute)
  also have "\<dots> = reverse_at (reverse_at cs p) p" by (rule Cons.IH)
  finally show ?case by (simp add: reverse_at_twice)
qed

lemma reverse_chunks_pos:
  "0 < c \<Longrightarrow> reverse_chunks d c ps = Inr (concat (foldl reverse_at (chunks_of (nat c) d) ps))"
  by (simp add: reverse_chunks_def chunk_list_pos and_then_def)

lemma length_concat_cong:
  "map length xs = map length ys \<Longrightarrow> length (concat xs) = length (concat ys)"
  by (simp add: length_concat)

lemma reverse_chunks_twice:
  assumes "0 < c"
  shows "and_then (reverse_chunks d c ps) (\<lambda>t. reverse_chunks t c ps) = Inr d"
proof -
  let ?cs = "chunks_of (nat c) d"
  let ?cs1 = "foldl reverse_at ?cs ps"
  have n: "0 < nat c" using assms by simp
  have "chunks_of (nat c) (concat ?cs1) = ?cs1"
    using n by (rule chunks_of_concat) (rule map_length_foldl_reverse_at)
  then have "reverse_chunks (concat ?cs1) c ps = Inr (concat ?cs)"
    using assms by (simp add: reverse_chunks_pos foldl_reverse_at_twice)
  then show ?thesis
    using assms n by (simp add: reverse_chunks_pos and_then_def concat_chunks_of)
qed

lemma length_reverse_chunks:
  assumes "0 < c"
  shows "reverse_chunks d c ps = Inr t \<Longrightarrow> length t = length d"
proof -
  assume "reverse_chunks d c ps = Inr t"
  then have t: "t = concat (foldl reverse_at (chunks_of (nat c) d) ps)"
    using assms by (simp add: reverse_chunks_pos)
  have "length t = length (concat (chunks_of (nat c) d))"
    unfolding t by (rule length_concat_cong) (rule map_length_foldl_reverse_at)
  then show ?thesis using assms by (simp add: concat_chunks_of)
qed

section \<open>The byte-wise XOR (Black\_Hole\_94.py, \<open>apply_calculus\<close>)\<close>

lemma chunks_of_map: "chunks_of c (map f xs) = map (map f) (chunks_of c xs)"
  by (simp add: chunks_of_def take_map drop_map)

lemma reverse_at_map: "reverse_at (map (map f) cs) p = map (map f) (reverse_at cs p)"
proof (cases "0 \<le> p \<and> p < int (length cs)")
  case True
  then have "nat p < length cs" by linarith
  then show ?thesis using True by (simp add: reverse_at_def map_update rev_map)
next
  case False
  then have "reverse_at (map (map f) cs) p = map (map f) cs" "reverse_at cs p = cs"
    unfolding reverse_at_def by auto
  then show ?thesis by simp
qed

lemma reverse_at_Nil: "reverse_at [] p = []"
  by (simp add: reverse_at_def)

lemma foldl_reverse_at_Nil: "foldl reverse_at [] ps = []"
  by (induction ps) (simp_all add: reverse_at_Nil)

lemma foldl_reverse_at_map:
  "foldl reverse_at (map (map f) cs) ps = map (map f) (foldl reverse_at cs ps)"
  by (induction ps arbitrary: cs) (simp_all add: reverse_at_map)

lemma reverse_chunks_map:
  "reverse_chunks (map f d) c ps = and_then (reverse_chunks d c ps) (\<lambda>r. Inr (map f r))"
proof -
  consider "c = 0" | "c < 0" | "0 < c" by linarith
  then show ?thesis
  proof cases
    case 1
    then show ?thesis by (simp add: reverse_chunks_def chunk_list_zero and_then_def)
  next
    case 2
    then show ?thesis
      by (simp add: reverse_chunks_def chunk_list_neg and_then_def foldl_reverse_at_Nil)
  next
    case 3
    then show ?thesis
      by (simp add: reverse_chunks_pos and_then_def chunks_of_map foldl_reverse_at_map map_concat)
  qed
qed

lemma length_chunks_of_num_chunks:
  assumes "0 < c"
  shows "int (length (chunks_of (nat c) d)) = num_chunks (length d) c"
proof -
  have "int ((length d + nat c - 1) div nat c) = int (length d + nat c - 1) div int (nat c)"
    by (rule zdiv_int)
  also have "int (length d + nat c - 1) = int (length d) + c - 1" using assms by simp
  finally show ?thesis using assms by (simp add: length_chunks_of num_chunks_def)
qed

lemma length_foldl_reverse_at: "length (foldl reverse_at cs ps) = length cs"
  by (induction ps arbitrary: cs) (simp_all add: length_reverse_at)

lemma reverse_at_outside: "\<not> (0 \<le> p \<and> p < int (length cs)) \<Longrightarrow> reverse_at cs p = cs"
  unfolding reverse_at_def by auto

lemma foldl_reverse_at_filter:
  "foldl reverse_at cs (filter (\<lambda>p. 0 \<le> p \<and> p < int (length cs)) ps) = foldl reverse_at cs ps"
proof (induction ps arbitrary: cs)
  case Nil
  show ?case by simp
next
  case (Cons p ps)
  show ?case
  proof (cases "0 \<le> p \<and> p < int (length cs)")
    case True
    have "foldl reverse_at (reverse_at cs p)
            (filter (\<lambda>q. 0 \<le> q \<and> q < int (length (reverse_at cs p))) ps)
          = foldl reverse_at (reverse_at cs p) ps"
      by (rule Cons.IH)
    then show ?thesis using True by (simp add: length_reverse_at)
  next
    case False
    then show ?thesis using Cons.IH [of cs] by (auto simp: reverse_at_outside)
  qed
qed

text \<open>
  Claim C1.  For every payload \<open>P\<close>, every chunk size \<open>c > 0\<close> and every list of distinct
  positions, each in \<open>[0, numChunks)\<close>: \<open>reverse_chunks\<close> applied to \<open>P\<close>, then applied
  again with the same chunk size and positions, then cut to \<open>len(P)\<close>, is \<open>P\<close>; and one
  round of the loop over positions, run twice on the same position, restores the chunk
  list.
\<close>

theorem reverse_chunks_round_trip:
  assumes "0 < c" and "distinct ps" and "\<forall>p\<in>set ps. 0 \<le> p \<and> p < num_chunks (length P) c"
  shows "and_then (reverse_chunks P c ps)
           (\<lambda>t. and_then (reverse_chunks t c ps) (\<lambda>r. Inr (take (length P) r))) = Inr P
         \<and> reverse_at (reverse_at chunked_data pos) pos = chunked_data"
proof -
  obtain t where t: "reverse_chunks P c ps = Inr t"
    using assms(1) by (simp add: reverse_chunks_pos)
  then have "reverse_chunks t c ps = Inr P"
    using reverse_chunks_twice [OF assms(1), of P ps] by (simp add: and_then_def)
  then show ?thesis using t by (simp add: and_then_def reverse_at_twice)
qed

text \<open>
  The round trip at \<open>P = [1, 2, 3, 4, 5]\<close>, chunk size 2, positions \<open>[0, 2]\<close>: three
  chunks, the last one short.
\<close>

theorem reverse_chunks_round_trip_witness:
  "(0::int) < 2 \<and> distinct [0, 2::int] \<and>
   (0::int) \<le> 0 \<and> 0 < num_chunks (length [1, 2, 3, 4, 5::byte]) 2 \<and>
   (0::int) \<le> 2 \<and> 2 < num_chunks (length [1, 2, 3, 4, 5::byte]) 2 \<and>
   reverse_chunks [1, 2, 3, 4, 5::byte] 2 [0, 2] = Inr [2, 1, 3, 4, 5] \<and>
   and_then (reverse_chunks [1, 2, 3, 4, 5::byte] 2 [0, 2])
     (\<lambda>t. and_then (reverse_chunks t 2 [0, 2]) (\<lambda>r. Inr (take (length [1, 2, 3, 4, 5::byte]) r)))
     = Inr [1, 2, 3, 4, 5]"
proof -
  have h: "\<forall>p\<in>set [0, 2::int]. 0 \<le> p \<and> p < num_chunks (length [1, 2, 3, 4, 5::byte]) 2"
    by (simp add: num_chunks_def)
  have e: "reverse_chunks [1, 2, 3, 4, 5::byte] 2 [0, 2] = Inr [2, 1, 3, 4, 5]"
    by (simp add: reverse_chunks_def chunk_list_def py_range_step_def and_then_def
        py_slice_def reverse_at_def upt_rec)
  have pos: "(0::int) < 2" and dist: "distinct [0, 2::int]" by simp_all
  have "and_then (reverse_chunks [1, 2, 3, 4, 5::byte] 2 [0, 2])
     (\<lambda>t. and_then (reverse_chunks t 2 [0, 2]) (\<lambda>r. Inr (take (length [1, 2, 3, 4, 5::byte]) r)))
     = Inr [1, 2, 3, 4, 5]"
    using reverse_chunks_round_trip [OF pos dist h, of "[]" 0] by blast
  then show ?thesis using e pos dist by (simp add: num_chunks_def)
qed

text \<open>
  Claim C7 says that the transform fails when a listed position lies outside
  \<open>[0, numChunks)\<close>.  It does not: position 5 is outside \<open>[0, 2)\<close>, and \<open>reverse_chunks\<close>
  returns the data unchanged.
\<close>

theorem reverse_chunks_skips_positions_counterexample:
  "\<not> (0 \<le> (5::int) \<and> 5 < num_chunks (length [1, 2::byte]) 1) \<and>
   reverse_chunks [1, 2::byte] 1 [5] = Inr [1, 2]"
  by (simp add: num_chunks_def reverse_chunks_def chunk_list_def py_range_step_def and_then_def
      py_slice_def reverse_at_def upt_rec)

text \<open>
  Claim C7, amended.  \<open>reverse_chunks\<close> raises exactly when the chunk size is 0, and the
  exception is the \<open>ValueError\<close> of \<open>range\<close>; the guard of the loop skips every position
  outside \<open>[0, numChunks)\<close>, so the result is the result for the positions inside.
\<close>

theorem reverse_chunks_raises_iff_zero:
  "(isl (reverse_chunks d c ps) \<longleftrightarrow> c = 0) \<and>
   reverse_chunks d 0 ps = Inl ValueError \<and>
   reverse_chunks d c ps
     = reverse_chunks d c (filter (\<lambda>p. 0 \<le> p \<and> p < num_chunks (length d) c) ps)"
proof -
  consider "c = 0" | "c < 0" | "0 < c" by linarith
  then show ?thesis
  proof cases
    case 1
    then show ?thesis by (simp add: reverse_chunks_def chunk_list_zero and_then_def)
  next
    case 2
    then show ?thesis by (simp add: reverse_chunks_def chunk_list_zero chunk_list_neg and_then_def foldl_reverse_at_Nil)
  next
    case 3
    have "foldl reverse_at (chunks_of (nat c) d)
            (filter (\<lambda>p. 0 \<le> p \<and> p < int (length (chunks_of (nat c) d))) ps)
          = foldl reverse_at (chunks_of (nat c) d) ps"
      by (rule foldl_reverse_at_filter)
    moreover have "reverse_chunks d 0 ps = Inl ValueError"
      by (simp add: reverse_chunks_def chunk_list_zero and_then_def)
    ultimately show ?thesis
      using 3 by (simp add: reverse_chunks_pos length_chunks_of_num_chunks)
  qed
qed

text \<open>
  At chunk size 0 the call raises; at chunk size 2 on four bytes the position 5 is skipped.
\<close>

theorem reverse_chunks_raises_iff_zero_witness:
  "isl (reverse_chunks [1, 2, 3, 4::byte] 0 [5, 0]) \<and>
   \<not> isl (reverse_chunks [1, 2, 3, 4::byte] 2 [5, 0]) \<and>
   reverse_chunks [1, 2, 3, 4::byte] 2 [5, 0] = reverse_chunks [1, 2, 3, 4::byte] 2 [0]"
proof -
  note at0 = reverse_chunks_raises_iff_zero [of "[1, 2, 3, 4::byte]" 0 "[5, 0]"]
  note at2 = reverse_chunks_raises_iff_zero [of "[1, 2, 3, 4::byte]" 2 "[5, 0]"]
  have f: "filter (\<lambda>p. 0 \<le> p \<and> p < num_chunks (length [1, 2, 3, 4::byte]) 2) [5, 0] = [0]"
    by (simp add: num_chunks_def)
  from at0 have a: "isl (reverse_chunks [1, 2, 3, 4::byte] 0 [5, 0])" by blast
  from at2 have "isl (reverse_chunks [1, 2, 3, 4::byte] 2 [5, 0]) \<longleftrightarrow> (2::int) = 0" by blast
  then have b: "\<not> isl (reverse_chunks [1, 2, 3, 4::byte] 2 [5, 0])" by simp
  from at2 have "reverse_chunks [1, 2, 3, 4::byte] 2 [5, 0]
      = reverse_chunks [1, 2, 3, 4::byte] 2
          (filter (\<lambda>p. 0 \<le> p \<and> p < num_chunks (length [1, 2, 3, 4::byte]) 2) [5, 0])"
    by blast
  then have c: "reverse_chunks [1, 2, 3, 4::byte] 2 [5, 0] = reverse_chunks [1, 2, 3, 4::byte] 2 [0]"
    by (simp only: f)
  from a b c show ?thesis by blast
qed

lemma apply_calculus_twice: "apply_calculus (apply_calculus d v) v = d"
  by (simp add: apply_calculus_def comp_def xor.assoc)

text \<open>
  Claim C10.  For every byte string \<open>d\<close>, value \<open>v\<close>, chunk size \<open>c > 0\<close> and position list
  \<open>ps\<close>: \<open>apply_calculus\<close> is its own inverse, it commutes with \<open>reverse_chunks\<close>, and the
  order of decompression (\<open>reverse_chunks\<close>, then \<open>apply_calculus\<close>, then the cut to the
  original length) undoes the order of compression (\<open>apply_calculus\<close>, then
  \<open>reverse_chunks\<close>).
\<close>

theorem apply_calculus_inverse_order:
  assumes "0 < c"
  shows "apply_calculus (apply_calculus d v) v = d \<and>
         reverse_chunks (apply_calculus d v) c ps
           = and_then (reverse_chunks d c ps) (\<lambda>r. Inr (apply_calculus r v)) \<and>
         and_then (reverse_chunks (apply_calculus d v) c ps)
           (\<lambda>t. and_then (reverse_chunks t c ps)
                  (\<lambda>r. Inr (take (length d) (apply_calculus r v)))) = Inr d"
proof -
  have comm: "\<And>x. reverse_chunks (apply_calculus x v) c ps
           = and_then (reverse_chunks x c ps) (\<lambda>r. Inr (apply_calculus r v))"
    unfolding apply_calculus_def by (rule reverse_chunks_map)
  obtain t where t: "reverse_chunks d c ps = Inr t"
    using assms by (simp add: reverse_chunks_pos)
  then have rback: "reverse_chunks t c ps = Inr d"
    using reverse_chunks_twice [OF assms, of d ps] by (simp add: and_then_def)
  have "reverse_chunks (apply_calculus d v) c ps = Inr (apply_calculus t v)"
    using comm [of d] t by (simp add: and_then_def)
  moreover have "reverse_chunks (apply_calculus t v) c ps = Inr (apply_calculus d v)"
    using comm [of t] rback by (simp add: and_then_def)
  ultimately show ?thesis
    using comm [of d] by (simp add: and_then_def apply_calculus_twice)
qed

text \<open>
  The same at \<open>d = [1, 2, 3, 4, 5]\<close>, \<open>v = 511\<close> (low byte 255), chunk size 2, positions
  \<open>[0, 2]\<close>.
\<close>

theorem apply_calculus_inverse_order_witness:
  "(0::int) < 2 \<and>
   apply_calculus [1, 2, 3, 4, 5] 511 = [254, 253, 252, 251, 250] \<and>
   reverse_chunks (apply_calculus [1, 2, 3, 4, 5] 511) 2 [0, 2] = Inr [253, 254, 252, 251, 250] \<and>
   and_then (reverse_chunks (apply_calculus [1, 2, 3, 4, 5] 511) 2 [0, 2])
     (\<lambda>t. and_then (reverse_chunks t 2 [0, 2])
            (\<lambda>r. Inr (take (length [1, 2, 3, 4, 5::byte]) (apply_calculus r 511))))
     = Inr [1, 2, 3, 4, 5]"
proof -
  have a: "apply_calculus [1, 2, 3, 4, 5] 511 = [254, 253, 252, 251, 250]"
    by (simp add: apply_calculus_def)
  have e: "reverse_chunks [254, 253, 252, 251, 250::byte] 2 [0, 2] = Inr [253, 254, 252, 251, 250]"
    by (simp add: reverse_chunks_def chunk_list_def py_range_step_def and_then_def
        py_slice_def reverse_at_def upt_rec)
  have pos: "(0::int) < 2" by simp
  have "and_then (reverse_chunks (apply_calculus [1, 2, 3, 4, 5] 511) 2 [0, 2])
     (\<lambda>t. and_then (reverse_chunks t 2 [0, 2])
            (\<lambda>r. Inr (take (length [1, 2, 3, 4, 5::byte]) (apply_calculus r 511))))
     = Inr [1, 2, 3, 4, 5]"
    using apply_calculus_inverse_order [OF pos, of "[1, 2, 3, 4, 5]" 511 "[0, 2]"] by blast
  then show ?thesis using a e pos by simp
qed

section \<open>The container\<close>

lemma length_be_bytes: "length (be_bytes n v) = n"
  by (induction n arbitrary: v) simp_all

lemma be_int_snoc: "be_int (bs @ [b]) = be_int bs * 256 + uint b"
  by (simp add: be_int_def)

lemma uint_low_byte: "uint (word_of_int (v mod 256) :: byte) = v mod 256"
  by (simp add: uint_word_of_int take_bit_eq_mod)

lemma in_uint_div: "in_uint (Suc n) v \<Longrightarrow> in_uint n (v div 256)"
proof -
  assume a: "in_uint (Suc n) v"
  then have "0 \<le> v" "v < 2 ^ (8 * n) * 256"
    by (simp_all add: in_uint_def power_add)
  moreover have "\<And>X. v < X * 256 \<Longrightarrow> v div 256 < X" by linarith
  ultimately have "0 \<le> v div 256" "v div 256 < 2 ^ (8 * n)"
    by (simp_all add: pos_imp_zdiv_nonneg_iff)
  then show ?thesis by (simp add: in_uint_def)
qed

lemma be_int_be_bytes: "in_uint n v \<Longrightarrow> be_int (be_bytes n v) = v"
proof (induction n arbitrary: v)
  case 0
  then show ?case by (simp add: in_uint_def be_int_def)
next
  case (Suc n)
  have "be_int (be_bytes n (v div 256)) = v div 256"
    using Suc.prems by (intro Suc.IH in_uint_div)
  then show ?case by (simp add: be_int_snoc uint_low_byte)
qed

lemma be_bytes_2: "be_bytes 2 v = [word_of_int (v div 256 mod 256), word_of_int (v mod 256)]"
  by (simp add: eval_nat_numeral)

lemma be_bytes_4:
  "be_bytes 4 v = [word_of_int (v div 256 div 256 div 256 mod 256),
                   word_of_int (v div 256 div 256 mod 256),
                   word_of_int (v div 256 mod 256), word_of_int (v mod 256)]"
  by (simp add: eval_nat_numeral)

lemma struct_pack_ok:
  "list_all (in_uint n) vs \<Longrightarrow> struct_pack n vs = Inr (concat (map (be_bytes n) vs))"
  by (simp add: struct_pack_def)

lemma length_concat_be_bytes: "length (concat (map (be_bytes n) vs)) = n * length vs"
  by (induction vs) (simp_all add: length_be_bytes)

lemma slice_concat_be_bytes:
  "k < length vs \<Longrightarrow>
   py_slice (concat (map (be_bytes n) vs)) (k * n) (k * n + n) = be_bytes n (vs ! k)"
proof (induction vs arbitrary: k)
  case Nil
  then show ?case by simp
next
  case (Cons v vs)
  show ?case
  proof (cases k)
    case 0
    then show ?thesis by (simp add: py_slice_def length_be_bytes)
  next
    case (Suc j)
    then have "j < length vs" using Cons.prems by simp
    then have "py_slice (concat (map (be_bytes n) vs)) (j * n) (j * n + n) = be_bytes n (vs ! j)"
      by (rule Cons.IH)
    then show ?thesis using Suc by (simp add: py_slice_def length_be_bytes)
  qed
qed

lemma struct_unpack_pack:
  assumes "list_all (in_uint n) vs"
  shows "struct_unpack n (length vs) (concat (map (be_bytes n) vs)) = Inr vs"
proof -
  have "map (\<lambda>k. be_int (py_slice (concat (map (be_bytes n) vs)) (k * n) (k * n + n)))
          [0..<length vs] = vs"
  proof (rule nth_equalityI)
    show "length (map (\<lambda>k. be_int (py_slice (concat (map (be_bytes n) vs)) (k * n) (k * n + n)))
          [0..<length vs]) = length vs" by simp
  next
    fix i
    assume "i < length (map (\<lambda>k. be_int (py_slice (concat (map (be_bytes n) vs)) (k * n) (k * n + n)))
          [0..<length vs])"
    then have i: "i < length vs" by simp
    then have "in_uint n (vs ! i)" using assms by (simp add: list_all_length)
    then show "map (\<lambda>k. be_int (py_slice (concat (map (be_bytes n) vs)) (k * n) (k * n + n)))
          [0..<length vs] ! i = vs ! i"
      using i by (simp add: slice_concat_be_bytes be_int_be_bytes)
  qed
  then show ?thesis by (simp add: struct_unpack_def length_concat_be_bytes)
qed

lemma build_container_ok:
  assumes "list_all (in_uint 4) [original_size, chunk_size, calculus_value]"
    and "list_all (in_uint 4) positions" and "length positions \<le> 65535"
  shows "build_container data chunk_size positions original_size calculus_value
         = Inr (concat (map (be_bytes 4) [original_size, chunk_size, calculus_value])
                @ be_bytes 2 (int (length positions))
                @ concat (map (be_bytes 4) positions) @ data)"
proof -
  have "in_uint 2 (int (length positions))" using assms(3) by (simp add: in_uint_def)
  then have c: "struct_pack 2 [int (length positions)] = Inr (be_bytes 2 (int (length positions)))"
    by (simp add: struct_pack_def)
  show ?thesis
    using assms c unfolding build_container_def
    by (simp add: struct_pack_ok and_then_def)
qed

lemma parse_container_built:
  assumes "list_all (in_uint 4) [original_size, chunk_size, calculus_value]"
    and "list_all (in_uint 4) positions" and "length positions \<le> 65535"
  shows "parse_container
           (concat (map (be_bytes 4) [original_size, chunk_size, calculus_value])
            @ be_bytes 2 (int (length positions))
            @ concat (map (be_bytes 4) positions) @ data)
         = Inr (original_size, chunk_size, calculus_value, positions, data)"
proof -
  let ?h = "concat (map (be_bytes 4) [original_size, chunk_size, calculus_value])"
  let ?c = "be_bytes 2 (int (length positions))"
  let ?p = "concat (map (be_bytes 4) positions)"
  let ?buf = "?h @ ?c @ ?p @ data"
  have lh: "length ?h = 12" by (simp add: length_be_bytes)
  have lc: "length ?c = 2" by (simp add: length_be_bytes)
  have lp: "length ?p = 4 * length positions" by (rule length_concat_be_bytes)
  have s1: "py_slice ?buf 0 12 = ?h" using lh by (simp add: py_slice_def)
  have s2: "py_slice ?buf 12 14 = ?c" using lh lc by (simp add: py_slice_def)
  have s3: "py_slice ?buf 14 (14 + length positions * 4) = ?p"
    using lh lc lp by (simp add: py_slice_def)
  have s4: "drop (14 + length positions * 4) ?buf = data"
    using lh lc lp by simp
  have u1: "struct_unpack 4 3 ?h = Inr [original_size, chunk_size, calculus_value]"
    using struct_unpack_pack [OF assms(1)] by (simp add: numeral_3_eq_3)
  have "in_uint 2 (int (length positions))" using assms(3) by (simp add: in_uint_def)
  then have "list_all (in_uint 2) [int (length positions)]" by simp
  from struct_unpack_pack [OF this]
  have u2: "struct_unpack 2 1 ?c = Inr [int (length positions)]" by simp
  have u3: "struct_unpack 4 (length positions) ?p = Inr positions"
    by (rule struct_unpack_pack [OF assms(2)])
  show ?thesis
    unfolding parse_container_def
    by (simp only: s1 s2 u1 u2 and_then_def sum.case list.case Let_def nat_int s3 s4 u3)
qed


text \<open>
  Claim C2 says that decoding the encoded container gives back the original size for every
  plan and payload.  The original size goes to a 4-byte field: for the original size
  \<open>2 ** 32\<close> \<open>struct.pack\<close> raises, and there is no container to decode.
\<close>

theorem container_fidelity_counterexample:
  "build_container [170] 4 [] (2 ^ 32) 0 = Inl StructError \<and>
   and_then (build_container [170] 4 [] (2 ^ 32) 0) parse_container
     \<noteq> Inr (2 ^ 32, 4, 0, [], [170])"
  by (simp add: build_container_def struct_pack_def in_uint_def and_then_def)

text \<open>
  Claim C2, amended.  For every plan whose positions have no duplicates and are at most
  \<open>MAX_POSITIONS\<close> many, and every transformed payload, when the original size, the chunk
  size, the calculus value and every position are in \<open>[0, 2 ** 32)\<close>: the header parsing
  of \<open>decompress_data\<close>, run on the bytes \<open>compress_data\<close> builds before the entropy coder,
  gives back the original size, the chunk size, the positions in the same order and the
  payload, byte for byte (and the calculus value, which this container also stores).
\<close>

theorem container_fidelity:
  assumes "distinct positions" and "length positions \<le> MAX_POSITIONS"
    and "0 \<le> original_size \<and> original_size < 2 ^ 32"
    and "0 \<le> chunk_size \<and> chunk_size < 2 ^ 32"
    and "0 \<le> calculus_value \<and> calculus_value < 2 ^ 32"
    and "\<forall>p\<in>set positions. 0 \<le> p \<and> p < 2 ^ 32"
  shows "and_then
           (build_container transformed chunk_size positions original_size calculus_value)
           parse_container
         = Inr (original_size, chunk_size, calculus_value, positions, transformed)"
proof -
  have h: "list_all (in_uint 4) [original_size, chunk_size, calculus_value]"
    using assms(3-5) by (simp add: in_uint_def)
  have p: "list_all (in_uint 4) positions"
    using assms(6) by (simp add: in_uint_def list_all_iff)
  have n: "length positions \<le> 65535"
    using assms(2) by (simp add: MAX_POSITIONS_def)
  show ?thesis
    by (simp only: build_container_ok [OF h p n] parse_container_built [OF h p n]
        and_then_def sum.case)
qed

text \<open>
  The container of a nine-byte payload with chunk size 4, positions \<open>[1, 0]\<close>, original
  size 9 and calculus value 300, and its parse.
\<close>

theorem container_fidelity_witness:
  "distinct [1, 0::int] \<and> length [1, 0::int] \<le> MAX_POSITIONS \<and>
   build_container [170, 1, 2, 3, 4, 5, 6, 7, 8] 4 [1, 0] 9 300
     = Inr [0, 0, 0, 9, 0, 0, 0, 4, 0, 0, 1, 44, 0, 2, 0, 0, 0, 1, 0, 0, 0, 0,
            170, 1, 2, 3, 4, 5, 6, 7, 8] \<and>
   and_then (build_container [170, 1, 2, 3, 4, 5, 6, 7, 8] 4 [1, 0] 9 300) parse_container
     = Inr (9, 4, 300, [1, 0], [170, 1, 2, 3, 4, 5, 6, 7, 8])"
proof -
  have d: "distinct [1, 0::int]" and l: "length [1, 0::int] \<le> MAX_POSITIONS"
    by (simp_all add: MAX_POSITIONS_def)
  have r: "(0::int) \<le> 9 \<and> (9::int) < 2 ^ 32" "(0::int) \<le> 4 \<and> (4::int) < 2 ^ 32"
    "(0::int) \<le> 300 \<and> (300::int) < 2 ^ 32" "\<forall>p\<in>set [1, 0::int]. 0 \<le> p \<and> p < 2 ^ 32"
    by simp_all
  have b: "build_container [170, 1, 2, 3, 4, 5, 6, 7, 8] 4 [1, 0] 9 300
     = Inr [0, 0, 0, 9, 0, 0, 0, 4, 0, 0, 1, 44, 0, 2, 0, 0, 0, 1, 0, 0, 0, 0,
            170, 1, 2, 3, 4, 5, 6, 7, 8]"
    by (simp add: build_container_def struct_pack_def and_then_def in_uint_def
        be_bytes_2 be_bytes_4)
  show ?thesis
    using d l b container_fidelity [OF d l r, of "[170, 1, 2, 3, 4, 5, 6, 7, 8]"] by blast
qed




section \<open>The search loops of Black\_Hole\_94.py and Black\_Hole\_89.py\<close>

lemma iteration_result:
  assumes "iteration paq input c b d = Inr b'"
  shows "\<exists>compressed. candidate paq input c d = Inr compressed \<and>
           (if length compressed < best_size b
            then best_size b' = length compressed \<and> best_data b' = compressed
            else b' = b)"
proof -
  from assms obtain compressed where c: "candidate paq input c d = Inr compressed"
    unfolding iteration_def and_then_def
    by (auto split: if_splits sum.splits)
  show ?thesis
  proof (cases "length compressed < best_size b")
    case True
    then have "best_size b' = length compressed \<and> best_data b' = compressed"
      using assms c unfolding iteration_def and_then_def py_truediv_def
      by (auto split: if_splits sum.splits simp: Let_def)
    then show ?thesis using c True by auto
  next
    case False
    then have "b' = b"
      using assms c unfolding iteration_def and_then_def
      by (auto split: if_splits sum.splits simp: Let_def)
    then show ?thesis using c False by auto
  qed
qed

lemma iteration_size_le:
  assumes "iteration paq input c b d = Inr b'"
  shows "best_size b' \<le> best_size b"
  using iteration_result [OF assms] by (auto split: if_splits)

lemma best_trace_bound:
  assumes "\<And>s i s'. body s i = Inr s' \<Longrightarrow> f s' \<le> (f s :: nat)"
  shows "\<forall>x\<in>set (best_trace body s indices). f x \<le> f s"
proof (induction indices arbitrary: s)
  case Nil
  show ?case by simp
next
  case (Cons i rest)
  show ?case
  proof (cases "body s i")
    case (Inl e)
    then show ?thesis by simp
  next
    case (Inr s')
    have "f s' \<le> f s" using Inr by (rule assms)
    moreover have "\<forall>x\<in>set (best_trace body s' rest). f x \<le> f s'" by (rule Cons.IH)
    ultimately show ?thesis using Inr by auto
  qed
qed

lemma best_trace_sorted:
  assumes "\<And>s i s'. body s i = Inr s' \<Longrightarrow> f s' \<le> (f s :: nat)"
  shows "sorted_wrt (\<lambda>x y. f y \<le> f x) (best_trace body s indices)"
proof (induction indices arbitrary: s)
  case Nil
  show ?case by simp
next
  case (Cons i rest)
  show ?case
  proof (cases "body s i")
    case (Inl e)
    then show ?thesis by simp
  next
    case (Inr s')
    have le: "f s' \<le> f s" using Inr by (rule assms)
    have "\<forall>x\<in>set (best_trace body s' rest). f x \<le> f s'"
      using assms by (rule best_trace_bound)
    then have "\<forall>x\<in>set (best_trace body s' rest). f x \<le> f s" using le by auto
    moreover have "sorted_wrt (\<lambda>x y. f y \<le> f x) (best_trace body s' rest)" by (rule Cons.IH)
    ultimately show ?thesis using Inr by simp
  qed
qed

lemma best_trace_ne: "best_trace body s indices \<noteq> []"
  by (cases indices) simp_all

lemma best_trace_for_each:
  "for_each body s indices = Inr r \<Longrightarrow>
   last (best_trace body s indices) = r \<and> length (best_trace body s indices) = Suc (length indices)"
proof (induction indices arbitrary: s)
  case Nil
  then show ?case by simp
next
  case (Cons i rest)
  then obtain s' where s': "body s i = Inr s'" and r: "for_each body s' rest = Inr r"
    by (auto simp: and_then_def split: sum.splits)
  from Cons.IH [OF r] show ?case using s' by (simp add: best_trace_ne)
qed

text \<open>
  The loop of Black\_Hole\_89.py compares \<open>len(compressed_data) / len(input_data)\<close> with
  the best ratio so far.  Every state the loop reaches is the starting one or holds some
  data together with the ratio of that data, so the comparison of the ratios is the
  comparison of the sizes.
\<close>

lemma iteration_89_result:
  assumes "iteration_89 paq input_data b d = Inr b'"
  shows "\<exists>compressed. candidate_89 paq input_data d = Inr compressed \<and> input_data \<noteq> [] \<and>
           (if ratio_less (real (length compressed) / real (length input_data)) (snd b)
            then b' = (Some compressed,
                       Some (real (length compressed) / real (length input_data)))
            else b' = b)"
  using assms unfolding iteration_89_def and_then_def py_truediv_def
  by (auto split: sum.splits if_splits)

lemma ratio_less_sizes:
  "n \<noteq> 0 \<Longrightarrow> ratio_less (real a / real n) (Some (real b / real n)) \<longleftrightarrow> a < b"
  by (simp add: ratio_less_def divide_less_cancel)

lemma best_trace_related:
  assumes step: "\<And>s i s'. P s \<Longrightarrow> body s i = Inr s' \<Longrightarrow> P s' \<and> R s s'"
    and refl: "\<And>x. R x x" and trans: "\<And>x y z. R x y \<Longrightarrow> R y z \<Longrightarrow> R x z"
    and "P s"
  shows "(\<forall>x\<in>set (best_trace body s indices). R s x) \<and>
         sorted_wrt R (best_trace body s indices)"
  using assms(4)
proof (induction indices arbitrary: s)
  case Nil
  show ?case by (simp add: refl)
next
  case (Cons i rest)
  show ?case
  proof (cases "body s i")
    case (Inl e)
    then show ?thesis by (simp add: refl)
  next
    case (Inr s')
    from step [OF Cons.prems Inr] have p: "P s'" and r: "R s s'" by simp_all
    from Cons.IH [OF p]
    have a: "\<forall>x\<in>set (best_trace body s' rest). R s' x"
      and b: "sorted_wrt R (best_trace body s' rest)" by simp_all
    from a r have "\<forall>x\<in>set (best_trace body s' rest). R s x" using trans by blast
    then show ?thesis using Inr b by (simp add: refl)
  qed
qed

lemma not_larger_89_refl: "not_larger_89 x x"
  by (simp add: not_larger_89_def split: option.splits)

lemma not_larger_89_trans: "not_larger_89 x y \<Longrightarrow> not_larger_89 y z \<Longrightarrow> not_larger_89 x z"
  by (auto simp: not_larger_89_def split: option.splits)

lemma iteration_89_first:
  assumes "iteration_89 paq input_data (None, None) d = Inr b'"
  shows "\<exists>compressed. candidate_89 paq input_data d = Inr compressed \<and>
           b' = (Some compressed, Some (real (length compressed) / real (length input_data)))"
  using iteration_89_result [OF assms] by (auto simp: ratio_less_def)

lemma iteration_89_later:
  assumes "iteration_89 paq input_data
             (Some cur, Some (real (length cur) / real (length input_data))) d = Inr b'"
  shows "\<exists>compressed. candidate_89 paq input_data d = Inr compressed \<and>
           (if length compressed < length cur
            then b' = (Some compressed,
                       Some (real (length compressed) / real (length input_data)))
            else b' = (Some cur, Some (real (length cur) / real (length input_data))))"
proof -
  from iteration_89_result [OF assms] obtain compressed
    where c: "candidate_89 paq input_data d = Inr compressed" and n: "input_data \<noteq> []"
      and r: "if ratio_less (real (length compressed) / real (length input_data))
                   (Some (real (length cur) / real (length input_data)))
              then b' = (Some compressed,
                         Some (real (length compressed) / real (length input_data)))
              else b' = (Some cur, Some (real (length cur) / real (length input_data)))"
    by auto
  have "length input_data \<noteq> 0" using n by simp
  from ratio_less_sizes [OF this, of "length compressed" "length cur"] r c
  show ?thesis by auto
qed

lemma iteration_89_step:
  assumes "b = (None, None) \<or>
           (\<exists>cur. b = (Some cur, Some (real (length cur) / real (length input_data))))"
    and "iteration_89 paq input_data b d = Inr b'"
  shows "(b' = (None, None) \<or>
          (\<exists>cur. b' = (Some cur, Some (real (length cur) / real (length input_data))))) \<and>
         not_larger_89 b b'"
  using assms(1)
proof
  assume b: "b = (None, None)"
  from iteration_89_first [OF assms(2) [unfolded b]] show ?thesis
    by (auto simp: b not_larger_89_def)
next
  assume "\<exists>cur. b = (Some cur, Some (real (length cur) / real (length input_data)))"
  then obtain cur where b: "b = (Some cur, Some (real (length cur) / real (length input_data)))"
    by blast
  from iteration_89_later [OF assms(2) [unfolded b]] show ?thesis
    by (auto simp: b not_larger_89_def split: if_splits)
qed

lemma best_trace_89_sorted:
  "sorted_wrt not_larger_89
     (best_trace (\<lambda>b i. iteration_89 paq input_data b (rng i)) (None, None) indices)"
proof -
  let ?P = "\<lambda>b :: bytes option \<times> real option. b = (None, None) \<or>
           (\<exists>cur. b = (Some cur, Some (real (length cur) / real (length input_data))))"
  have "(\<forall>x\<in>set (best_trace (\<lambda>b i. iteration_89 paq input_data b (rng i)) (None, None) indices).
            not_larger_89 (None, None) x) \<and>
        sorted_wrt not_larger_89
          (best_trace (\<lambda>b i. iteration_89 paq input_data b (rng i)) (None, None) indices)"
  proof (rule best_trace_related [where P = ?P])
    fix s :: "bytes option \<times> real option" and i s'
    assume "?P s" and "iteration_89 paq input_data s (rng i) = Inr s'"
    then show "?P s' \<and> not_larger_89 s s'" by (rule iteration_89_step)
  next
    fix x show "not_larger_89 x x" by (rule not_larger_89_refl)
  next
    fix x y z
    assume "not_larger_89 x y" "not_larger_89 y z"
    then show "not_larger_89 x z" by (rule not_larger_89_trans)
  next
    show "?P (None, None)" by simp
  qed
  then show ?thesis by blast
qed


text \<open>
  Claim C5.  In every run of the search loop the best-so-far record is replaced only when
  the candidate's compressed size is strictly smaller than the current best (on a tie or a
  larger candidate the record stays as it was), and the best sizes the loop holds, from the
  initial one on, never increase.  For Black\_Hole\_94.py the test is
  \<open>comp_size < best_size\<close>.  For Black\_Hole\_89.py the test is on the ratios
  \<open>len(compressed_data) / len(input_data)\<close>, the quotients taken exactly: from the starting
  state (no data, ratio \<open>float('inf')\<close>) the first candidate is taken, and from a state that
  holds data the candidate replaces it exactly when it is strictly shorter.  Each trace is
  that of its loop: when the loop returns, the trace has one record more than iterations
  and ends with the result.
\<close>

theorem best_so_far_monotone:
  "(\<forall>b'. iteration paq input c b d = Inr b' \<longrightarrow>
       (\<exists>compressed. candidate paq input c d = Inr compressed \<and>
          (if length compressed < best_size b
           then best_size b' = length compressed \<and> best_data b' = compressed
           else b' = b))) \<and>
   sorted_wrt (\<lambda>x y. best_size y \<le> best_size x)
     (best_trace (\<lambda>b i. iteration paq input c b (rng i)) b0 indices) \<and>
   (\<forall>r. search_loop paq rng input c b0 indices = Inr r \<longrightarrow>
       last (best_trace (\<lambda>b i. iteration paq input c b (rng i)) b0 indices) = r \<and>
       length (best_trace (\<lambda>b i. iteration paq input c b (rng i)) b0 indices)
         = Suc (length indices)) \<and>
   (\<forall>b'. iteration_89 paq input state draw = Inr b' \<longrightarrow>
       (\<exists>compressed. candidate_89 paq input draw = Inr compressed \<and>
          (if ratio_less (real (length compressed) / real (length input)) (snd state)
           then b' = (Some compressed, Some (real (length compressed) / real (length input)))
           else b' = state))) \<and>
   (\<forall>b'. iteration_89 paq input (None, None) draw = Inr b' \<longrightarrow>
       (\<exists>compressed. candidate_89 paq input draw = Inr compressed \<and>
          b' = (Some compressed, Some (real (length compressed) / real (length input))))) \<and>
   (\<forall>b'. iteration_89 paq input
            (Some cur, Some (real (length cur) / real (length input))) draw = Inr b' \<longrightarrow>
       (\<exists>compressed. candidate_89 paq input draw = Inr compressed \<and>
          (if length compressed < length cur
           then b' = (Some compressed, Some (real (length compressed) / real (length input)))
           else b' = (Some cur, Some (real (length cur) / real (length input)))))) \<and>
   sorted_wrt not_larger_89
     (best_trace (\<lambda>b i. iteration_89 paq input b (gen i)) (None, None) steps) \<and>
   (\<forall>r. find_best_iteration_89 paq gen input max_iterations = Inr r \<longrightarrow>
       last (best_trace (\<lambda>b i. iteration_89 paq input b (gen i)) (None, None)
               [0..max_iterations - 1]) = r \<and>
       length (best_trace (\<lambda>b i. iteration_89 paq input b (gen i)) (None, None)
                 [0..max_iterations - 1])
         = Suc (length [0..max_iterations - 1]))"
proof (intro conjI allI impI)
  fix b'
  assume "iteration paq input c b d = Inr b'"
  then show "\<exists>compressed. candidate paq input c d = Inr compressed \<and>
          (if length compressed < best_size b
           then best_size b' = length compressed \<and> best_data b' = compressed
           else b' = b)"
    by (rule iteration_result)
next
  show "sorted_wrt (\<lambda>x y. best_size y \<le> best_size x)
     (best_trace (\<lambda>b i. iteration paq input c b (rng i)) b0 indices)"
    by (rule best_trace_sorted) (rule iteration_size_le)
next
  fix r
  assume "search_loop paq rng input c b0 indices = Inr r"
  then have f: "for_each (\<lambda>b i. iteration paq input c b (rng i)) b0 indices = Inr r"
    by (simp add: search_loop_def)
  from best_trace_for_each [OF f]
  show "last (best_trace (\<lambda>b i. iteration paq input c b (rng i)) b0 indices) = r"
    and "length (best_trace (\<lambda>b i. iteration paq input c b (rng i)) b0 indices)
         = Suc (length indices)"
    by simp_all
next
  fix b'
  assume "iteration_89 paq input state draw = Inr b'"
  from iteration_89_result [OF this]
  show "\<exists>compressed. candidate_89 paq input draw = Inr compressed \<and>
          (if ratio_less (real (length compressed) / real (length input)) (snd state)
           then b' = (Some compressed, Some (real (length compressed) / real (length input)))
           else b' = state)"
    by blast
next
  fix b'
  assume "iteration_89 paq input (None, None) draw = Inr b'"
  then show "\<exists>compressed. candidate_89 paq input draw = Inr compressed \<and>
          b' = (Some compressed, Some (real (length compressed) / real (length input)))"
    by (rule iteration_89_first)
next
  fix b'
  assume "iteration_89 paq input
            (Some cur, Some (real (length cur) / real (length input))) draw = Inr b'"
  then show "\<exists>compressed. candidate_89 paq input draw = Inr compressed \<and>
          (if length compressed < length cur
           then b' = (Some compressed, Some (real (length compressed) / real (length input)))
           else b' = (Some cur, Some (real (length cur) / real (length input))))"
    by (rule iteration_89_later)
next
  show "sorted_wrt not_larger_89
     (best_trace (\<lambda>b i. iteration_89 paq input b (gen i)) (None, None) steps)"
    by (rule best_trace_89_sorted)
next
  fix r
  assume "find_best_iteration_89 paq gen input max_iterations = Inr r"
  then have f: "for_each (\<lambda>b i. iteration_89 paq input b (gen i)) (None, None)
                  [0..max_iterations - 1] = Inr r"
    by (simp add: find_best_iteration_89_def)
  from best_trace_for_each [OF f]
  show "last (best_trace (\<lambda>b i. iteration_89 paq input b (gen i)) (None, None)
               [0..max_iterations - 1]) = r"
    and "length (best_trace (\<lambda>b i. iteration_89 paq input b (gen i)) (None, None)
                 [0..max_iterations - 1])
         = Suc (length [0..max_iterations - 1])"
    by simp_all
qed

text \<open>Evaluation on concrete inputs.\<close>

lemma chunks_of_Cons:
  "0 < c \<Longrightarrow> chunks_of c (x # xs) = take c (x # xs) # chunks_of c (drop c (x # xs))"
  by (rule chunks_of_step) simp_all

lemmas eval_reverse_chunks =
  reverse_chunks_pos chunks_of_Cons chunks_of_Nil reverse_at_def

lemmas eval_container =
  build_container_def struct_pack_def and_then_def in_uint_def be_bytes_2 be_bytes_4

lemma reverse_chunks_example: "reverse_chunks [1,2,3,4,5::byte] 2 [0,2] = Inr [2,1,3,4,5]"
  by (simp add: eval_reverse_chunks)

lemma candidate_improving: "candidate (\<lambda>x. Inr (filter (\<lambda>b. b \<noteq> 0) x)) [1, 1, 1] 2 (1, []) = Inr [3, 2, 1]"
proof -
  have a: "apply_calculus [1, 1, 1] 1 = [0, 0, 0]" by (simp add: apply_calculus_def)
  have r: "reverse_chunks [0, 0, 0::byte] 2 [] = Inr [0, 0, 0]" by (simp add: eval_reverse_chunks)
  have b: "build_container [0, 0, 0] 2 [] 3 1 = Inr [0,0,0,3, 0,0,0,2, 0,0,0,1, 0,0, 0,0,0]"
    by (simp add: eval_container)
  show ?thesis by (simp add: candidate_def compress_data_def a r b and_then_def)
qed

lemma candidate_larger: "candidate (\<lambda>x. Inr (filter (\<lambda>b. b \<noteq> 0) x)) [1, 1, 1] 2 (2, []) = Inr [3, 2, 2, 3, 3, 3]"
proof -
  have a: "apply_calculus [1, 1, 1] 2 = [3, 3, 3]" by (simp add: apply_calculus_def)
  have r: "reverse_chunks [3, 3, 3::byte] 2 [] = Inr [3, 3, 3]" by (simp add: eval_reverse_chunks)
  have b: "build_container [3, 3, 3] 2 [] 3 2 = Inr [0,0,0,3, 0,0,0,2, 0,0,0,2, 0,0, 3,3,3]"
    by (simp add: eval_container)
  show ?thesis by (simp add: candidate_def compress_data_def a r b and_then_def)
qed

lemma iteration_improves: "iteration (\<lambda>x. Inr (filter (\<lambda>b. b \<noteq> 0) x)) [1, 1, 1] 2
     \<lparr>best_size = 5, best_data = [3, 2, 1, 1, 1], best_ratio = 5 / 3\<rparr> (1, [])
     = Inr \<lparr>best_size = 3, best_data = [3, 2, 1], best_ratio = 1\<rparr>"
  by (simp add: iteration_def candidate_improving and_then_def MAX_POSITIONS_def py_truediv_def)


lemma iteration_keeps_initial: "iteration (\<lambda>x. Inr (filter (\<lambda>b. b \<noteq> 0) x)) [1, 1, 1] 2
     \<lparr>best_size = 5, best_data = [3, 2, 1, 1, 1], best_ratio = 5 / 3\<rparr> (2, [])
     = Inr \<lparr>best_size = 5, best_data = [3, 2, 1, 1, 1], best_ratio = 5 / 3\<rparr>"
  by (simp add: iteration_def candidate_larger and_then_def MAX_POSITIONS_def py_truediv_def)

lemma iteration_keeps_improved: "iteration (\<lambda>x. Inr (filter (\<lambda>b. b \<noteq> 0) x)) [1, 1, 1] 2
     \<lparr>best_size = 3, best_data = [3, 2, 1], best_ratio = 1\<rparr> (2, [])
     = Inr \<lparr>best_size = 3, best_data = [3, 2, 1], best_ratio = 1\<rparr>"
  by (simp add: iteration_def candidate_larger and_then_def MAX_POSITIONS_def py_truediv_def)

lemmas eval_container_89 =
  build_container_89_def struct_pack_def and_then_def in_uint_def be_bytes_4

lemma candidate_89_smaller:
  "candidate_89 (\<lambda>x. Inr (filter (\<lambda>b. b \<noteq> 0) x)) [1, 1, 1] (128, 1, []) = Inr [3, 128, 1]"
proof -
  have a: "apply_calculus [1, 1, 1] 1 = [0, 0, 0]" by (simp add: apply_calculus_def)
  have r: "reverse_chunks [0, 0, 0::byte] 128 [] = Inr [0, 0, 0]"
    by (simp add: eval_reverse_chunks)
  have b: "build_container_89 [0, 0, 0] 128 [] 3 1
             = Inr [0, 0, 0, 3, 0, 0, 0, 128, 0, 0, 0, 1, 0, 0, 0, 0]"
    by (simp add: eval_container_89)
  show ?thesis by (simp add: candidate_89_def compress_data_89_def a r b and_then_def)
qed

lemma candidate_89_larger:
  "candidate_89 (\<lambda>x. Inr (filter (\<lambda>b. b \<noteq> 0) x)) [1, 1, 1] (128, 2, [])
     = Inr [3, 128, 2, 3, 3, 3]"
proof -
  have a: "apply_calculus [1, 1, 1] 2 = [3, 3, 3]" by (simp add: apply_calculus_def)
  have r: "reverse_chunks [3, 3, 3::byte] 128 [] = Inr [3, 3, 3]"
    by (simp add: eval_reverse_chunks)
  have b: "build_container_89 [3, 3, 3] 128 [] 3 2
             = Inr [0, 0, 0, 3, 0, 0, 0, 128, 0, 0, 0, 2, 0, 3, 3, 3]"
    by (simp add: eval_container_89)
  show ?thesis by (simp add: candidate_89_def compress_data_89_def a r b and_then_def)
qed

lemma iteration_89_starts:
  "iteration_89 (\<lambda>x. Inr (filter (\<lambda>b. b \<noteq> 0) x)) [1, 1, 1] (None, None) (128, 2, [])
     = Inr (Some [3, 128, 2, 3, 3, 3], Some 2)"
  by (simp add: iteration_89_def candidate_89_larger and_then_def py_truediv_def ratio_less_def)

lemma iteration_89_improves:
  "iteration_89 (\<lambda>x. Inr (filter (\<lambda>b. b \<noteq> 0) x)) [1, 1, 1]
     (Some [3, 128, 2, 3, 3, 3], Some 2) (128, 1, []) = Inr (Some [3, 128, 1], Some 1)"
  by (simp add: iteration_89_def candidate_89_smaller and_then_def py_truediv_def ratio_less_def)

lemma iteration_89_keeps_larger:
  "iteration_89 (\<lambda>x. Inr (filter (\<lambda>b. b \<noteq> 0) x)) [1, 1, 1]
     (Some [3, 128, 1], Some 1) (128, 2, []) = Inr (Some [3, 128, 1], Some 1)"
  by (simp add: iteration_89_def candidate_89_larger and_then_def py_truediv_def ratio_less_def)

lemma iteration_89_keeps_tie:
  "iteration_89 (\<lambda>x. Inr (filter (\<lambda>b. b \<noteq> 0) x)) [1, 1, 1]
     (Some [1, 2, 3], Some 1) (128, 1, []) = Inr (Some [1, 2, 3], Some 1)"
  by (simp add: iteration_89_def candidate_89_smaller and_then_def py_truediv_def ratio_less_def)

lemma upto_0_2: "[0..2::int] = [0, 1, 2]"
  by (simp add: upto_rec1)


text \<open>
  A run of three iterations of Black\_Hole\_94.py on \<open>[1, 1, 1]\<close> with chunk size 2 and a
  coder that drops zero bytes: the initial best has 5 bytes, the candidates have 6, 3 and 6
  bytes, and the best sizes are 5, 5, 3, 3.  A run of three iterations of
  Black\_Hole\_89.py on the same input and coder: the candidates have 6, 3 and 6 bytes, and
  the best sizes are none, 6, 3, 3; a candidate of 3 bytes against a best of 3 bytes leaves
  the best as it was.
\<close>

theorem best_so_far_monotone_witness:
  "iteration (\<lambda>x. Inr (filter (\<lambda>b. b \<noteq> 0) x)) [1, 1, 1] 2
     \<lparr>best_size = 5, best_data = [3, 2, 1, 1, 1], best_ratio = 5 / 3\<rparr> (1, [])
     = Inr \<lparr>best_size = 3, best_data = [3, 2, 1], best_ratio = 1\<rparr> \<and>
   (\<exists>compressed.
      candidate (\<lambda>x. Inr (filter (\<lambda>b. b \<noteq> 0) x)) [1, 1, 1] 2 (1, []) = Inr compressed \<and>
      (if length compressed
            < best_size \<lparr>best_size = 5, best_data = [3, 2, 1, 1, 1], best_ratio = 5 / 3\<rparr>
       then best_size \<lparr>best_size = 3, best_data = [3, 2, 1], best_ratio = 1\<rparr>
              = length compressed \<and>
            best_data \<lparr>best_size = 3, best_data = [3, 2, 1], best_ratio = 1\<rparr> = compressed
       else \<lparr>best_size = 3, best_data = [3, 2, 1], best_ratio = 1\<rparr>
            = \<lparr>best_size = 5, best_data = [3, 2, 1, 1, 1], best_ratio = 5 / 3\<rparr>)) \<and>
   map best_size
     (best_trace
        (\<lambda>b i. iteration (\<lambda>x. Inr (filter (\<lambda>b. b \<noteq> 0) x)) [1, 1, 1] 2 b
                  (if i = 2 then (1, []) else (2, [])))
        \<lparr>best_size = 5, best_data = [3, 2, 1, 1, 1], best_ratio = 5 / 3\<rparr> [1, 2, 3::int])
     = [5, 5, 3, 3] \<and>
   sorted_wrt (\<lambda>x y. best_size y \<le> best_size x)
     (best_trace
        (\<lambda>b i. iteration (\<lambda>x. Inr (filter (\<lambda>b. b \<noteq> 0) x)) [1, 1, 1] 2 b
                  (if i = 2 then (1, []) else (2, [])))
        \<lparr>best_size = 5, best_data = [3, 2, 1, 1, 1], best_ratio = 5 / 3\<rparr> [1, 2, 3::int]) \<and>
   iteration_89 (\<lambda>x. Inr (filter (\<lambda>b. b \<noteq> 0) x)) [1, 1, 1]
     (Some [3, 128, 2, 3, 3, 3],
      Some (real (length [3, 128, 2, 3, 3, 3::byte]) / real (length [1, 1, 1::byte])))
     (128, 1, []) = Inr (Some [3, 128, 1], Some 1) \<and>
   (\<exists>compressed.
      candidate_89 (\<lambda>x. Inr (filter (\<lambda>b. b \<noteq> 0) x)) [1, 1, 1] (128, 1, [])
        = Inr compressed \<and>
      (if length compressed < length [3, 128, 2, 3, 3, 3::byte]
       then (Some [3, 128, 1], Some 1)
            = (Some compressed,
               Some (real (length compressed) / real (length [1, 1, 1::byte])))
       else (Some [3, 128, 1::byte], Some 1)
            = (Some [3, 128, 2, 3, 3, 3],
               Some (real (length [3, 128, 2, 3, 3, 3::byte])
                     / real (length [1, 1, 1::byte]))))) \<and>
   iteration_89 (\<lambda>x. Inr (filter (\<lambda>b. b \<noteq> 0) x)) [1, 1, 1]
     (Some [1, 2, 3], Some (real (length [1, 2, 3::byte]) / real (length [1, 1, 1::byte])))
     (128, 1, []) = Inr (Some [1, 2, 3], Some 1) \<and>
   map (\<lambda>s. map_option length (fst s))
     (best_trace
        (\<lambda>b i. iteration_89 (\<lambda>x. Inr (filter (\<lambda>b. b \<noteq> 0) x)) [1, 1, 1] b
                  (if i = 1 then (128, 1, []) else (128, 2, [])))
        (None, None) [0, 1, 2::int])
     = [None, Some 6, Some 3, Some 3] \<and>
   sorted_wrt not_larger_89
     (best_trace
        (\<lambda>b i. iteration_89 (\<lambda>x. Inr (filter (\<lambda>b. b \<noteq> 0) x)) [1, 1, 1] b
                  (if i = 1 then (128, 1, []) else (128, 2, [])))
        (None, None) [0, 1, 2::int]) \<and>
   search_loop (\<lambda>x. Inr (filter (\<lambda>b. b \<noteq> 0) x))
     (\<lambda>i. if i = 2 then (1, []) else (2, [])) [1, 1, 1] 2
     \<lparr>best_size = 5, best_data = [3, 2, 1, 1, 1], best_ratio = 5 / 3\<rparr> [1, 2, 3]
     = Inr \<lparr>best_size = 3, best_data = [3, 2, 1], best_ratio = 1\<rparr> \<and>
   last (best_trace
           (\<lambda>b i. iteration (\<lambda>x. Inr (filter (\<lambda>b. b \<noteq> 0) x)) [1, 1, 1] 2 b
                     (if i = 2 then (1, []) else (2, [])))
           \<lparr>best_size = 5, best_data = [3, 2, 1, 1, 1], best_ratio = 5 / 3\<rparr> [1, 2, 3::int])
     = \<lparr>best_size = 3, best_data = [3, 2, 1], best_ratio = 1\<rparr> \<and>
   find_best_iteration_89 (\<lambda>x. Inr (filter (\<lambda>b. b \<noteq> 0) x))
     (\<lambda>i. if i = 1 then (128, 1, []) else (128, 2, [])) [1, 1, 1] 3
     = Inr (Some [3, 128, 1], Some 1) \<and>
   last (best_trace
           (\<lambda>b i. iteration_89 (\<lambda>x. Inr (filter (\<lambda>b. b \<noteq> 0) x)) [1, 1, 1] b
                     (if i = 1 then (128, 1, []) else (128, 2, [])))
           (None, None) [0..3 - 1])
     = (Some [3, 128, 1], Some 1)"
proof -
  let ?paq = "\<lambda>x::bytes. Inr (filter (\<lambda>b. b \<noteq> 0) x) :: py_error + bytes"
  let ?b0 = "\<lparr>best_size = 5, best_data = [3, 2, 1, 1, 1], best_ratio = 5 / 3\<rparr>"
  let ?b1 = "\<lparr>best_size = 3, best_data = [3, 2, 1], best_ratio = 1\<rparr>"
  let ?rng = "\<lambda>i::int. if i = 2 then (1::int, []::int list) else (2, [])"
  let ?rng89 = "\<lambda>i::int. if i = 1 then (128::int, 1::int, []::int list) else (128, 2, [])"
  let ?cur = "[3, 128, 2, 3, 3, 3] :: bytes"
  note T = best_so_far_monotone [where paq = ?paq and input = "[1, 1, 1]" and c = 2
      and b = ?b0 and d = "(1, [])" and rng = ?rng and ?b0.0 = ?b0 and indices = "[1, 2, 3]"
      and draw = "(128, 1, [])" and cur = ?cur and gen = ?rng89
      and steps = "[0, 1, 2]" and max_iterations = 3]
  have t: "map best_size
     (best_trace (\<lambda>b i. iteration ?paq [1, 1, 1] 2 b (?rng i)) ?b0 [1, 2, 3::int]) = [5, 5, 3, 3]"
    by (simp add: iteration_improves iteration_keeps_initial iteration_keeps_improved)
  have e: "\<exists>compressed.
      candidate ?paq [1, 1, 1] 2 (1, []) = Inr compressed \<and>
      (if length compressed < best_size ?b0
       then best_size ?b1 = length compressed \<and> best_data ?b1 = compressed
       else ?b1 = ?b0)"
    by (rule T [THEN conjunct1, rule_format, OF iteration_improves])
  have s: "sorted_wrt (\<lambda>x y. best_size y \<le> best_size x)
     (best_trace (\<lambda>b i. iteration ?paq [1, 1, 1] 2 b (?rng i)) ?b0 [1, 2, 3::int])"
    by (rule T [THEN conjunct2, THEN conjunct1])
  have i89: "iteration_89 ?paq [1, 1, 1]
     (Some ?cur, Some (real (length ?cur) / real (length [1, 1, 1::byte])))
     (128, 1, []) = Inr (Some [3, 128, 1], Some 1)"
    using iteration_89_improves by simp
  have e89: "\<exists>compressed.
      candidate_89 ?paq [1, 1, 1] (128, 1, []) = Inr compressed \<and>
      (if length compressed < length ?cur
       then (Some [3, 128, 1], Some 1)
            = (Some compressed,
               Some (real (length compressed) / real (length [1, 1, 1::byte])))
       else (Some [3, 128, 1::byte], Some 1)
            = (Some ?cur, Some (real (length ?cur) / real (length [1, 1, 1::byte]))))"
    by (rule T [THEN conjunct2, THEN conjunct2, THEN conjunct2, THEN conjunct2, THEN conjunct2, THEN conjunct1, rule_format, OF i89])
  have tie: "iteration_89 ?paq [1, 1, 1]
     (Some [1, 2, 3], Some (real (length [1, 2, 3::byte]) / real (length [1, 1, 1::byte])))
     (128, 1, []) = Inr (Some [1, 2, 3], Some 1)"
    using iteration_89_keeps_tie by simp
  have t89: "map (\<lambda>s. map_option length (fst s))
     (best_trace (\<lambda>b i. iteration_89 ?paq [1, 1, 1] b (?rng89 i)) (None, None) [0, 1, 2::int])
     = [None, Some 6, Some 3, Some 3]"
    by (simp add: iteration_89_starts iteration_89_improves iteration_89_keeps_larger)
  have s89: "sorted_wrt not_larger_89
     (best_trace (\<lambda>b i. iteration_89 ?paq [1, 1, 1] b (?rng89 i)) (None, None) [0, 1, 2::int])"
    by (rule T [THEN conjunct2, THEN conjunct2, THEN conjunct2, THEN conjunct2, THEN conjunct2, THEN conjunct2, THEN conjunct1])
  have l: "search_loop ?paq ?rng [1, 1, 1] 2 ?b0 [1, 2, 3] = Inr ?b1"
    by (simp add: search_loop_def iteration_improves iteration_keeps_initial
        iteration_keeps_improved and_then_def)
  have ll: "last (best_trace (\<lambda>b i. iteration ?paq [1, 1, 1] 2 b (?rng i)) ?b0 [1, 2, 3::int])
              = ?b1"
    by (rule T [THEN conjunct2, THEN conjunct2, THEN conjunct1, rule_format, OF l,
          THEN conjunct1])
  have f: "find_best_iteration_89 ?paq ?rng89 [1, 1, 1] 3 = Inr (Some [3, 128, 1], Some 1)"
    by (simp add: find_best_iteration_89_def upto_0_2 iteration_89_starts
        iteration_89_improves iteration_89_keeps_larger and_then_def)
  have fl: "last (best_trace (\<lambda>b i. iteration_89 ?paq [1, 1, 1] b (?rng89 i)) (None, None)
                    [0..3 - 1]) = (Some [3, 128, 1], Some 1)"
    by (rule T [THEN conjunct2, THEN conjunct2, THEN conjunct2, THEN conjunct2, THEN conjunct2, THEN conjunct2, THEN conjunct2, rule_format, OF f, THEN conjunct1])
  show ?thesis
    by (intro conjI) (rule iteration_improves e t s i89 e89 tie t89 s89 l ll f fl)+
qed

section \<open>The search returns a result\<close>

lemma for_each_invariant:
  assumes "\<And>s i. P s \<Longrightarrow> \<exists>s'. body s i = Inr s' \<and> P s'" and "P s"
  shows "\<exists>r. for_each body s indices = Inr r \<and> P r"
  using assms(2)
proof (induction indices arbitrary: s)
  case Nil
  then show ?case by simp
next
  case (Cons i rest)
  from assms(1) [OF Cons.prems] obtain s' where s': "body s i = Inr s'" "P s'" by blast
  from Cons.IH [OF s'(2)] show ?case using s'(1) by (simp add: and_then_def)
qed

lemma admissible_fields:
  assumes "admissible input_data c (cv, ps)" and "0 < c" and "length input_data < 2 ^ 32"
  shows "in_uint 4 cv" and "list_all (in_uint 4) ps" and "length ps \<le> 64"
proof -
  have cv: "1 \<le> cv" "cv \<le> 2 ^ 17 - 1"
    and ps: "list_all (\<lambda>p. 0 \<le> p \<and> p < int (length input_data) div c) ps"
    and n: "int (length ps) \<le> min (int (length input_data) div c) (int MAX_POSITIONS)"
    using assms(1) by (simp_all add: admissible_def)
  show "in_uint 4 cv" using cv by (simp add: in_uint_def)
  have "\<And>n::int. 0 \<le> n \<Longrightarrow> n div c \<le> n"
    by (metis div_0 int_div_le_self leI nle_le)
  then have "int (length input_data) div c \<le> int (length input_data)"
    by simp
  also have "\<dots> < 2 ^ 32" using assms(3) by simp
  finally have "int (length input_data) div c < 2 ^ 32" .
  then show "list_all (in_uint 4) ps"
    using ps by (auto simp: list_all_iff in_uint_def)
  show "length ps \<le> 64" using n by (simp add: MAX_POSITIONS_def)
qed

lemma compress_data_ok:
  assumes "list_all (in_uint 4) [original_size, chunk_size, calculus_value]"
    and "list_all (in_uint 4) positions" and "length positions \<le> 65535"
    and "\<forall>x. \<exists>y. paq x = Inr y"
  shows "\<exists>y. compress_data paq data chunk_size positions original_size calculus_value = Inr y"
  using assms(4) by (simp add: compress_data_def build_container_ok [OF assms(1-3)] and_then_def)

lemma candidate_total:
  assumes "admissible input_data c d" and "0 < c" and "c < 2 ^ 32"
    and "length input_data < 2 ^ 32" and "\<forall>x. \<exists>y. paq x = Inr y"
  shows "\<exists>y. candidate paq input_data c d = Inr y"
proof -
  obtain cv ps where d: "d = (cv, ps)" by (cases d)
  note f = admissible_fields [OF assms(1) [unfolded d] assms(2) assms(4)]
  have h: "list_all (in_uint 4) [int (length input_data), c, cv]"
    using f(1) assms(2-4) by (simp add: in_uint_def)
  have n: "length ps \<le> 65535" using f(3) by simp
  obtain r where r: "reverse_chunks (apply_calculus input_data cv) c ps = Inr r"
    using assms(2) by (simp add: reverse_chunks_pos)
  from compress_data_ok [OF h f(2) n assms(5), of r]
  show ?thesis by (simp add: candidate_def d r and_then_def)
qed

lemma iteration_total:
  assumes "admissible input_data c d" and "0 < c" and "c < 2 ^ 32"
    and "input_data \<noteq> []"
    and "length input_data < 2 ^ 32" and "\<forall>x. \<exists>y. paq x = Inr y"
  shows "\<exists>b'. iteration paq input_data c b d = Inr b'"
proof -
  obtain y where y: "candidate paq input_data c d = Inr y"
    using candidate_total [OF assms(1-3) assms(5-6)] by blast
  have "0 \<le> int (length input_data) div c" using assms(2) by (simp add: pos_imp_zdiv_nonneg_iff)
  then have m: "\<not> min (int (length input_data) div c) (int MAX_POSITIONS) < 0" by simp
  show ?thesis
    using assms(2) assms(4) m by (simp add: iteration_def y and_then_def py_truediv_def Let_def)
qed

lemma initial_best_total:
  assumes "0 \<le> c" and "c < 2 ^ 32" and "input_data \<noteq> []"
    and "length input_data < 2 ^ 32" and "\<forall>x. \<exists>y. paq x = Inr y"
  shows "\<exists>b0. initial_best paq input_data c = Inr b0 \<and>
           compress_data paq input_data c [] (int (length input_data)) 0 = Inr (best_data b0) \<and>
           best_size b0 = length (best_data b0)"
proof -
  have h: "list_all (in_uint 4) [int (length input_data), c, 0]"
    using assms(1,2,4) by (simp add: in_uint_def)
  have "\<exists>y. compress_data paq input_data c [] (int (length input_data)) 0 = Inr y"
    by (rule compress_data_ok [OF h _ _ assms(5)]) simp_all
  then obtain y where y: "compress_data paq input_data c [] (int (length input_data)) 0 = Inr y"
    by blast
  show ?thesis using assms(3) by (simp add: initial_best_def y and_then_def py_truediv_def)
qed

lemma find_best_iteration_total:
  assumes "input_data \<noteq> []" and "length input_data < 2 ^ 32" and "\<forall>x. \<exists>y. paq x = Inr y"
    and "0 < c" and "c < 2 ^ 32" and "\<forall>i. admissible input_data c (rng i)"
  shows "\<exists>b0. initial_best paq input_data c = Inr b0 \<and>
           compress_data paq input_data c [] (int (length input_data)) 0 = Inr (best_data b0) \<and>
           find_best_iteration paq rng input_data 0 c = Inr (best_data b0, best_ratio b0) \<and>
           (\<exists>d r. find_best_iteration paq rng input_data m c = Inr (d, r))"
proof -
  have c0: "0 \<le> c" using assms(4) by simp
  from initial_best_total [OF c0 assms(5) assms(1) assms(2) assms(3)]
  obtain b0 where b0: "initial_best paq input_data c = Inr b0"
    and base: "compress_data paq input_data c [] (int (length input_data)) 0 = Inr (best_data b0)"
    by blast
  have step: "\<And>s i. True \<Longrightarrow> \<exists>s'. iteration paq input_data c s (rng i) = Inr s' \<and> True"
    using iteration_total [OF _ assms(4,5,1,2,3)] assms(6) by simp
  from for_each_invariant [where P = "\<lambda>_. True" and body = "\<lambda>b i. iteration paq input_data c b (rng i)", OF step]
  obtain r where r: "for_each (\<lambda>b i. iteration paq input_data c b (rng i)) b0 [1..m] = Inr r"
    by blast
  have z: "find_best_iteration paq rng input_data 0 c = Inr (best_data b0, best_ratio b0)"
    by (simp add: find_best_iteration_def b0 and_then_def search_loop_def)
  have "find_best_iteration paq rng input_data m c = Inr (best_data r, best_ratio r)"
    by (simp add: find_best_iteration_def b0 and_then_def search_loop_def r)
  then show ?thesis using b0 base z by blast
qed


lemma be_bytes_1: "be_bytes 1 v = [word_of_int (v mod 256)]"
  by simp

lemma build_container_89_ok:
  assumes "list_all (in_uint 4) [original_size, chunk_size, calculus_value]"
    and "list_all (in_uint 4) positions" and "length positions \<le> 255"
  shows "\<exists>y. build_container_89 data chunk_size positions original_size calculus_value = Inr y"
proof -
  have "in_uint 1 (int (length positions))" using assms(3) by (simp add: in_uint_def)
  then have "list_all (in_uint 1) [int (length positions)]" by simp
  then show ?thesis
    unfolding build_container_89_def
    by (simp only: struct_pack_ok [OF assms(1)] struct_pack_ok [OF assms(2)]
        struct_pack_ok and_then_def sum.case) simp
qed

lemma candidate_89_total:
  assumes "admissible_89 input_data d"
    and "length input_data < 2 ^ 32" and "\<forall>x. \<exists>y. paq x = Inr y"
  shows "\<exists>y. candidate_89 paq input_data d = Inr y"
proof -
  obtain c cv ps where d: "d = (c, cv, ps)" by (cases d)
  have c: "2 ^ 7 \<le> c" "c \<le> 2 ^ 17 - 1" and a: "admissible input_data c (cv, ps)"
    using assms(1) by (simp_all add: admissible_89_def d)
  have pos: "0 < c" using c(1) by simp
  note f = admissible_fields [OF a pos assms(2)]
  have h: "list_all (in_uint 4) [int (length input_data), c, cv]"
    using f(1) c assms(2) by (simp add: in_uint_def)
  have n: "length ps \<le> 255" using f(3) by simp
  obtain r where r: "reverse_chunks (apply_calculus input_data cv) c ps = Inr r"
    using pos by (simp add: reverse_chunks_pos)
  obtain y where y: "build_container_89 r c ps (int (length input_data)) cv = Inr y"
    using build_container_89_ok [OF h f(2) n] by blast
  show ?thesis
    using assms(3) by (simp add: candidate_89_def d r and_then_def compress_data_89_def y)
qed

lemma iteration_89_defined:
  assumes "admissible_89 input_data d" and "input_data \<noteq> []"
    and "length input_data < 2 ^ 32" and "\<forall>x. \<exists>y. paq x = Inr y"
    and "b = (None, None) \<or> (\<exists>x r. b = (Some x, Some r))"
  shows "\<exists>x r. iteration_89 paq input_data b d = Inr (Some x, Some r)"
proof -
  obtain y where y: "candidate_89 paq input_data d = Inr y"
    using candidate_89_total [OF assms(1,3,4)] by blast
  from assms(5) show ?thesis
  proof
    assume "b = (None, None)"
    then show ?thesis
      using assms(2) by (simp add: iteration_89_def y and_then_def py_truediv_def ratio_less_def)
  next
    assume "\<exists>x r. b = (Some x, Some r)"
    then show ?thesis
      using assms(2) by (auto simp: iteration_89_def y and_then_def py_truediv_def)
  qed
qed

lemma find_best_iteration_89_zero:
  "m \<le> 0 \<Longrightarrow> find_best_iteration_89 paq rng input_data m = Inr (None, None)"
  by (simp add: find_best_iteration_89_def)

lemma find_best_iteration_89_defined:
  assumes "input_data \<noteq> []" and "length input_data < 2 ^ 32" and "\<forall>x. \<exists>y. paq x = Inr y"
    and "0 < m" and "\<forall>i. admissible_89 input_data (rng i)"
  shows "\<exists>x r. find_best_iteration_89 paq rng input_data m = Inr (Some x, Some r)"
proof -
  let ?body = "\<lambda>b i. iteration_89 paq input_data b (rng i)"
  let ?P = "\<lambda>b :: bytes option \<times> real option. \<exists>x r. b = (Some x, Some r)"
  have first: "\<exists>x r. ?body (None, None) 0 = Inr (Some x, Some r)"
    using assms(5) by (intro iteration_89_defined [OF _ assms(1,2,3)]) simp_all
  then obtain x r where xr: "?body (None, None) 0 = Inr (Some x, Some r)" by blast
  have step: "\<And>s i. ?P s \<Longrightarrow> \<exists>s'. ?body s i = Inr s' \<and> ?P s'"
  proof -
    fix s :: "bytes option \<times> real option" and i :: int
    assume "?P s"
    then have "s = (None, None) \<or> (\<exists>x r. s = (Some x, Some r))" by blast
    from iteration_89_defined [OF _ assms(1,2,3) this, of "rng i"] assms(5)
    show "\<exists>s'. ?body s i = Inr s' \<and> ?P s'" by blast
  qed
  have "?P (Some x, Some r)" by blast
  from for_each_invariant [where P = ?P and body = ?body, OF step this]
  obtain res where res: "for_each ?body (Some x, Some r) [1..m - 1] = Inr res" "?P res"
    by blast
  have "[0..m - 1] = 0 # [1..m - 1]" using assms(4) by (simp add: upto_rec1)
  then have "find_best_iteration_89 paq rng input_data m = Inr res"
    by (simp add: find_best_iteration_89_def xr and_then_def res(1))
  then show ?thesis using res(2) by blast
qed


text \<open>
  Claim C4 says that the search returns a defined result for every non-empty payload and
  every budget, a zero-iteration budget included.  \<open>find_best_iteration\<close> of
  Black\_Hole\_89.py computes no baseline: with no iteration it returns
  \<open>(None, float('inf'))\<close>.
\<close>

theorem search_without_baseline_counterexample:
  "[1, 2, 3::byte] \<noteq> [] \<and>
   find_best_iteration_89 Inr (\<lambda>i. (128, 1, [])) [1, 2, 3] 0 = Inr (None, None)"
  by (simp add: find_best_iteration_89_def)

text \<open>
  Claim C4, amended.  For a non-empty payload of less than \<open>2 ** 32\<close> bytes and an
  entropy coder that does not fail: \<open>find_best_iteration\<close> of Black\_Hole\_94.py, for a chunk
  size in \<open>(0, 2 ** 32)\<close> and every budget, returns a defined result; the baseline (no
  positions, calculus value 0, the payload through \<open>compress_data\<close>) is computed before any
  iteration and is the result of a zero-iteration budget.  \<open>find_best_iteration\<close> of
  Black\_Hole\_89.py returns \<open>(None, float('inf'))\<close> for a zero-iteration budget and a
  defined result for every budget of at least one iteration.
\<close>

theorem search_result_defined:
  assumes "input_data \<noteq> []" and "length input_data < 2 ^ 32"
    and "\<forall>x. \<exists>y. paq_compress x = Inr y"
  shows "(0 < chunk_size \<and> chunk_size < 2 ^ 32 \<and>
          (\<forall>i. admissible input_data chunk_size (rng i)) \<longrightarrow>
            (\<exists>b0. initial_best paq_compress input_data chunk_size = Inr b0 \<and>
                compress_data paq_compress input_data chunk_size [] (int (length input_data)) 0
                  = Inr (best_data b0) \<and>
                find_best_iteration paq_compress rng input_data 0 chunk_size
                  = Inr (best_data b0, best_ratio b0) \<and>
                (\<exists>d r. find_best_iteration paq_compress rng input_data max_iterations chunk_size
                         = Inr (d, r)))) \<and>
         find_best_iteration_89 paq_compress rng_89 input_data 0 = Inr (None, None) \<and>
         (0 < max_iterations \<and> (\<forall>i. admissible_89 input_data (rng_89 i)) \<longrightarrow>
            (\<exists>x r. find_best_iteration_89 paq_compress rng_89 input_data max_iterations
                     = Inr (Some x, Some r)))"
proof (intro conjI impI)
  assume "0 < chunk_size \<and> chunk_size < 2 ^ 32 \<and> (\<forall>i. admissible input_data chunk_size (rng i))"
  then have c: "0 < chunk_size" "chunk_size < 2 ^ 32"
    and a: "\<forall>i. admissible input_data chunk_size (rng i)" by simp_all
  show "\<exists>b0. initial_best paq_compress input_data chunk_size = Inr b0 \<and>
                compress_data paq_compress input_data chunk_size [] (int (length input_data)) 0
                  = Inr (best_data b0) \<and>
                find_best_iteration paq_compress rng input_data 0 chunk_size
                  = Inr (best_data b0, best_ratio b0) \<and>
                (\<exists>d r. find_best_iteration paq_compress rng input_data max_iterations chunk_size
                         = Inr (d, r))"
    by (rule find_best_iteration_total [OF assms c a])
next
  show "find_best_iteration_89 paq_compress rng_89 input_data 0 = Inr (None, None)"
    by (rule find_best_iteration_89_zero) simp
next
  assume "0 < max_iterations \<and> (\<forall>i. admissible_89 input_data (rng_89 i))"
  then have m: "0 < max_iterations" and a: "\<forall>i. admissible_89 input_data (rng_89 i)"
    by simp_all
  show "\<exists>x r. find_best_iteration_89 paq_compress rng_89 input_data max_iterations
                     = Inr (Some x, Some r)"
    by (rule find_best_iteration_89_defined [OF assms m a])
qed

text \<open>
  Both searches on \<open>[1, 2, 3]\<close> with a coder that stores its input: the baseline of
  Black\_Hole\_94.py is the 17-byte container.
\<close>

theorem search_result_defined_witness:
  "[1, 2, 3::byte] \<noteq> [] \<and> length [1, 2, 3::byte] < 2 ^ 32 \<and>
   (\<forall>x::bytes. \<exists>y. (Inr x :: py_error + bytes) = Inr y) \<and>
   (0::int) < 2 \<and> (2::int) < 2 ^ 32 \<and> admissible [1, 2, 3] 2 (5, []) \<and>
   admissible_89 [1, 2, 3] (128, 1, []) \<and>
   initial_best Inr [1, 2, 3] 2
     = Inr \<lparr>best_size = 17,
            best_data = [0, 0, 0, 3, 0, 0, 0, 2, 0, 0, 0, 0, 0, 0, 1, 2, 3],
            best_ratio = 17 / 3\<rparr> \<and>
   (\<exists>b0. initial_best Inr [1, 2, 3] 2 = Inr b0 \<and>
      compress_data Inr [1, 2, 3] 2 [] (int (length [1, 2, 3::byte])) 0 = Inr (best_data b0) \<and>
      find_best_iteration Inr (\<lambda>i. (5, [])) [1, 2, 3] 0 2 = Inr (best_data b0, best_ratio b0) \<and>
      (\<exists>d r. find_best_iteration Inr (\<lambda>i. (5, [])) [1, 2, 3] 2 2 = Inr (d, r))) \<and>
   find_best_iteration_89 Inr (\<lambda>i. (128, 1, [])) [1, 2, 3] 0 = Inr (None, None) \<and>
   (\<exists>x r. find_best_iteration_89 Inr (\<lambda>i. (128, 1, [])) [1, 2, 3] 2 = Inr (Some x, Some r))"
proof -
  have h1: "[1, 2, 3::byte] \<noteq> []" and h2: "length [1, 2, 3::byte] < 2 ^ 32"
    and h3: "\<forall>x::bytes. \<exists>y. (Inr x :: py_error + bytes) = Inr y"
    by simp_all
  have c: "(0::int) < 2" "(2::int) < 2 ^ 32" by simp_all
  have a: "admissible [1, 2, 3] 2 (5, [])"
    by (simp add: admissible_def MAX_POSITIONS_def)
  have a89: "admissible_89 [1, 2, 3] (128, 1, [])"
    by (simp add: admissible_89_def admissible_def MAX_POSITIONS_def)
  have b: "build_container [1, 2, 3] 2 [] 3 0
             = Inr [0, 0, 0, 3, 0, 0, 0, 2, 0, 0, 0, 0, 0, 0, 1, 2, 3]"
    by (simp add: eval_container)
  have i: "initial_best Inr [1, 2, 3] 2
     = Inr \<lparr>best_size = 17,
            best_data = [0, 0, 0, 3, 0, 0, 0, 2, 0, 0, 0, 0, 0, 0, 1, 2, 3],
            best_ratio = 17 / 3\<rparr>"
    by (simp add: initial_best_def compress_data_def b and_then_def py_truediv_def)
  note T = search_result_defined [OF h1 h2 h3, of 2 "\<lambda>i. (5, [])" 2 "\<lambda>i. (128, 1, [])"]
  from T c a have p94: "\<exists>b0. initial_best Inr [1, 2, 3] 2 = Inr b0 \<and>
      compress_data Inr [1, 2, 3] 2 [] (int (length [1, 2, 3::byte])) 0 = Inr (best_data b0) \<and>
      find_best_iteration Inr (\<lambda>i. (5, [])) [1, 2, 3] 0 2 = Inr (best_data b0, best_ratio b0) \<and>
      (\<exists>d r. find_best_iteration Inr (\<lambda>i. (5, [])) [1, 2, 3] 2 2 = Inr (d, r))"
    by blast
  from T have z: "find_best_iteration_89 Inr (\<lambda>i. (128, 1, [])) [1, 2, 3] 0 = Inr (None, None)"
    by blast
  from T c(1) a89 have p89:
    "\<exists>x r. find_best_iteration_89 Inr (\<lambda>i. (128, 1, [])) [1, 2, 3] 2 = Inr (Some x, Some r)"
    by blast
  from h1 h2 h3 c a a89 i p94 z p89 show ?thesis by blast
qed

section \<open>A failure of the entropy coder during search\<close>

lemma for_each_append:
  "for_each body s (xs @ ys) = and_then (for_each body s xs) (\<lambda>s'. for_each body s' ys)"
  by (induction xs arbitrary: s) (simp_all add: and_then_def split: sum.splits)

lemma compress_with_paq_failure:
  assumes "build_container_65 r ps n = Inr blob" and "paq blob = Inl e"
  shows "compress_with_paq paq r ps n = None"
  using assms by (simp add: compress_with_paq_def and_then_def)

lemma strategy_round_failure:
  assumes "reverse_chunks_in_memory d 1 ps = Some r"
    and "build_container_65 r ps (int (length d)) = Inr blob" and "paq blob = Inl e"
  shows "strategy_round paq d st ps = st"
proof -
  have "compress_with_paq paq r ps (int (length d)) = None"
    using assms(2,3) by (rule compress_with_paq_failure)
  then show ?thesis using assms(1) by (simp add: strategy_round_def Let_def)
qed

lemma candidate_failure:
  assumes "reverse_chunks (apply_calculus input_data cv) c ps = Inr r"
    and "build_container r c ps (int (length input_data)) cv = Inr blob" and "paq blob = Inl e"
  shows "candidate paq input_data c (cv, ps) = Inl e"
  using assms by (simp add: candidate_def compress_data_def and_then_def)

lemma iteration_failure:
  assumes "0 < c" and "candidate paq input_data c d = Inl e"
  shows "iteration paq input_data c b d = Inl e"
proof -
  have "0 \<le> int (length input_data) div c" using assms(1) by (simp add: pos_imp_zdiv_nonneg_iff)
  then have "\<not> min (int (length input_data) div c) (int MAX_POSITIONS) < 0" by simp
  then show ?thesis using assms by (simp add: iteration_def and_then_def)
qed

text \<open>
  Claim C8, amended.  In \<open>find_best_chunk_strategy\<close> of Black\_Hole\_65.py a failure of the
  entropy coder on one candidate is not fatal: \<open>compress_with_paq\<close> catches it and returns
  \<open>False\<close>, the round leaves the best-so-far record (and the compressed file) as they
  were, and the rounds after it run from that state.  In \<open>find_best_iteration\<close> of
  Black\_Hole\_94.py nothing catches it: the iteration raises the coder's exception, and so
  does the loop, whatever iterations would follow.
\<close>

theorem coder_failure_in_search:
  "(reverse_chunks_in_memory original_data 1 positions = Some reversed_data \<and>
    build_container_65 reversed_data positions (int (length original_data)) = Inr blob \<and>
    paq_compress blob = Inl e \<longrightarrow>
      strategy_round paq_compress original_data st positions = st \<and>
      foldl (strategy_round paq_compress original_data) st (before @ positions # after)
        = foldl (strategy_round paq_compress original_data)
            (foldl (strategy_round paq_compress original_data) st before) after) \<and>
   (0 < chunk_size \<and> rng i = (calculus_value, positions) \<and>
    reverse_chunks (apply_calculus original_data calculus_value) chunk_size positions
      = Inr reversed_data \<and>
    build_container reversed_data chunk_size positions (int (length original_data))
      calculus_value = Inr blob \<and>
    paq_compress blob = Inl e \<and>
    search_loop paq_compress rng original_data chunk_size b0 earlier = Inr b \<longrightarrow>
      iteration paq_compress original_data chunk_size b (rng i) = Inl e \<and>
      search_loop paq_compress rng original_data chunk_size b0 (earlier @ i # later) = Inl e)"
proof (intro conjI impI)
  assume a: "reverse_chunks_in_memory original_data 1 positions = Some reversed_data \<and>
    build_container_65 reversed_data positions (int (length original_data)) = Inr blob \<and>
    paq_compress blob = Inl e"
  then have r: "strategy_round paq_compress original_data s positions = s" for s
    by (intro strategy_round_failure [of original_data positions reversed_data blob]) simp_all
  show "strategy_round paq_compress original_data st positions = st" by (rule r)
  show "foldl (strategy_round paq_compress original_data) st (before @ positions # after)
        = foldl (strategy_round paq_compress original_data)
            (foldl (strategy_round paq_compress original_data) st before) after"
    by (simp add: r)
next
  assume a: "0 < chunk_size \<and> rng i = (calculus_value, positions) \<and>
    reverse_chunks (apply_calculus original_data calculus_value) chunk_size positions
      = Inr reversed_data \<and>
    build_container reversed_data chunk_size positions (int (length original_data))
      calculus_value = Inr blob \<and>
    paq_compress blob = Inl e \<and>
    search_loop paq_compress rng original_data chunk_size b0 earlier = Inr b"
  then have rng: "rng i = (calculus_value, positions)" and c: "0 < chunk_size"
    and loop: "for_each (\<lambda>b i. iteration paq_compress original_data chunk_size b (rng i))
                 b0 earlier = Inr b"
    by (simp_all add: search_loop_def)
  have "candidate paq_compress original_data chunk_size (calculus_value, positions) = Inl e"
    using a candidate_failure [of original_data calculus_value chunk_size positions
        reversed_data blob paq_compress e] by simp
  then have it: "iteration paq_compress original_data chunk_size s (rng i) = Inl e" for s
    unfolding rng using c by (intro iteration_failure)
  show "iteration paq_compress original_data chunk_size b (rng i) = Inl e" by (rule it)
  show "search_loop paq_compress rng original_data chunk_size b0 (earlier @ i # later) = Inl e"
    by (simp add: search_loop_def for_each_append loop and_then_def it)
qed


lemma be_bytes_8:
  "be_bytes 8 v = [word_of_int (v div 256 div 256 div 256 div 256 div 256 div 256 div 256 mod 256),
                   word_of_int (v div 256 div 256 div 256 div 256 div 256 div 256 mod 256),
                   word_of_int (v div 256 div 256 div 256 div 256 div 256 mod 256),
                   word_of_int (v div 256 div 256 div 256 div 256 mod 256),
                   word_of_int (v div 256 div 256 div 256 mod 256),
                   word_of_int (v div 256 div 256 mod 256),
                   word_of_int (v div 256 mod 256), word_of_int (v mod 256)]"
  by (simp add: eval_nat_numeral)

lemmas eval_container_65 =
  build_container_65_def struct_pack_def and_then_def in_uint_def be_bytes_4 be_bytes_8 Let_def

lemmas eval_reverse_chunks_in_memory =
  reverse_chunks_in_memory_def chunk_list_pos chunks_of_Cons chunks_of_Nil pad_last_def
  reverse_at_def and_then_def

lemma upto_1_2: "[1..2::int] = [1, 2]"
  by (simp add: upto_rec1)

text \<open>
  Claim C8 says that a failure of the entropy coder on one candidate is not fatal during
  search.  In \<open>find_best_iteration\<close> of Black\_Hole\_94.py it is: with a coder that fails
  on inputs of more than 17 bytes, the baseline of \<open>[1, 2, 3]\<close> is computed, the candidate
  of iteration 1 (one position, 21 bytes) makes the coder fail, and the search raises,
  although the candidate of iteration 2 would pass.
\<close>

theorem coder_failure_fatal_counterexample:
  "initial_best (\<lambda>x. if length x \<le> 17 then Inr x else Inl CoderError) [1, 2, 3] 2
     = Inr \<lparr>best_size = 17,
            best_data = [0, 0, 0, 3, 0, 0, 0, 2, 0, 0, 0, 0, 0, 0, 1, 2, 3],
            best_ratio = 17 / 3\<rparr> \<and>
   candidate (\<lambda>x. if length x \<le> 17 then Inr x else Inl CoderError) [1, 2, 3] 2 (5, [0])
     = Inl CoderError \<and>
   candidate (\<lambda>x. if length x \<le> 17 then Inr x else Inl CoderError) [1, 2, 3] 2 (5, [])
     = Inr [0, 0, 0, 3, 0, 0, 0, 2, 0, 0, 0, 5, 0, 0, 4, 7, 6] \<and>
   find_best_iteration (\<lambda>x. if length x \<le> 17 then Inr x else Inl CoderError)
     (\<lambda>i. if i = 1 then (5, [0]) else (5, [])) [1, 2, 3] 2 2 = Inl CoderError"
proof -
  let ?paq = "\<lambda>x::bytes. if length x \<le> 17 then Inr x else Inl CoderError"
  have b: "build_container [1, 2, 3] 2 [] 3 0
             = Inr [0, 0, 0, 3, 0, 0, 0, 2, 0, 0, 0, 0, 0, 0, 1, 2, 3]"
    by (simp add: eval_container)
  have i: "initial_best ?paq [1, 2, 3] 2
     = Inr \<lparr>best_size = 17,
            best_data = [0, 0, 0, 3, 0, 0, 0, 2, 0, 0, 0, 0, 0, 0, 1, 2, 3],
            best_ratio = 17 / 3\<rparr>"
    by (simp add: initial_best_def compress_data_def b and_then_def py_truediv_def)
  have a: "apply_calculus [1, 2, 3] 5 = [4, 7, 6]" by (simp add: apply_calculus_def)
  have r: "reverse_chunks [4, 7, 6::byte] 2 [0] = Inr [7, 4, 6]"
    by (simp add: eval_reverse_chunks)
  have r0: "reverse_chunks [4, 7, 6::byte] 2 [] = Inr [4, 7, 6]"
    by (simp add: eval_reverse_chunks)
  have c: "build_container [7, 4, 6] 2 [0] 3 5
             = Inr [0, 0, 0, 3, 0, 0, 0, 2, 0, 0, 0, 5, 0, 1, 0, 0, 0, 0, 7, 4, 6]"
    by (simp add: eval_container)
  have c0: "build_container [4, 7, 6] 2 [] 3 5
             = Inr [0, 0, 0, 3, 0, 0, 0, 2, 0, 0, 0, 5, 0, 0, 4, 7, 6]"
    by (simp add: eval_container)
  have f: "candidate ?paq [1, 2, 3] 2 (5, [0]) = Inl CoderError"
    by (simp add: candidate_def compress_data_def a r c and_then_def)
  have g: "candidate ?paq [1, 2, 3] 2 (5, [])
             = Inr [0, 0, 0, 3, 0, 0, 0, 2, 0, 0, 0, 5, 0, 0, 4, 7, 6]"
    by (simp add: candidate_def compress_data_def a r0 c0 and_then_def)
  have it: "iteration ?paq [1, 2, 3] 2
              \<lparr>best_size = 17,
                 best_data = [0, 0, 0, 3, 0, 0, 0, 2, 0, 0, 0, 0, 0, 0, 1, 2, 3],
                 best_ratio = 17 / 3\<rparr> (5, [0]) = Inl CoderError"
    by (simp add: iteration_def f and_then_def MAX_POSITIONS_def)
  have "find_best_iteration ?paq (\<lambda>i. if i = 1 then (5, [0]) else (5, [])) [1, 2, 3] 2 2
          = Inl CoderError"
    by (simp add: find_best_iteration_def i search_loop_def upto_1_2 it and_then_def)
  with i f g show ?thesis by blast
qed


text \<open>
  Three rounds of Black\_Hole\_65.py on \<open>[1, 2, 3]\<close> with a coder that drops zero bytes and
  fails on the 27-byte container of the second round: the best after the first round
  survives the failure, and the third round improves on it.  Two iterations of
  Black\_Hole\_94.py with the coder of the counterexample: the loop raises.
\<close>

theorem coder_failure_in_search_witness:
  "reverse_chunks_in_memory [1, 2, 3] 1 [0, 1] = Some [1, 2, 3] \<and>
   build_container_65 [1, 2, 3] [0, 1] 3
     = Inr [0, 0, 0, 0, 0, 0, 0, 3, 0, 0, 0, 1, 0, 0, 0, 2, 0, 0, 0, 0, 0, 0, 0, 1, 1, 2, 3] \<and>
   strategy_round (\<lambda>x. if length x = 27 then Inl CoderError else Inr (filter (\<lambda>b. b \<noteq> 0) x))
     [1, 2, 3]
     \<lparr>best_positions = [0, 1, 2], best_compression_ratio = Some (8 / 3),
      compressed_file = Some [3, 1, 3, 1, 2, 1, 2, 3]\<rparr> [0, 1]
     = \<lparr>best_positions = [0, 1, 2], best_compression_ratio = Some (8 / 3),
         compressed_file = Some [3, 1, 3, 1, 2, 1, 2, 3]\<rparr> \<and>
   foldl (strategy_round
            (\<lambda>x. if length x = 27 then Inl CoderError else Inr (filter (\<lambda>b. b \<noteq> 0) x))
            [1, 2, 3])
     \<lparr>best_positions = [], best_compression_ratio = None, compressed_file = None\<rparr>
     ([[0, 1, 2]] @ [0, 1] # [[0]])
     = \<lparr>best_positions = [0], best_compression_ratio = Some 2,
         compressed_file = Some [3, 1, 1, 1, 2, 3]\<rparr> \<and>
   iteration (\<lambda>x. if length x \<le> 17 then Inr x else Inl CoderError) [1, 2, 3] 2
     \<lparr>best_size = 17, best_data = [0, 0, 0, 3, 0, 0, 0, 2, 0, 0, 0, 0, 0, 0, 1, 2, 3],
      best_ratio = 17 / 3\<rparr> (5, [0]) = Inl CoderError \<and>
   search_loop (\<lambda>x. if length x \<le> 17 then Inr x else Inl CoderError)
     (\<lambda>i. if i = 1 then (5, [0]) else (5, [])) [1, 2, 3] 2
     \<lparr>best_size = 17, best_data = [0, 0, 0, 3, 0, 0, 0, 2, 0, 0, 0, 0, 0, 0, 1, 2, 3],
      best_ratio = 17 / 3\<rparr> ([] @ 1 # [2]) = Inl CoderError"
proof -
  let ?p65 = "\<lambda>x::bytes. if length x = 27 then Inl CoderError else Inr (filter (\<lambda>b. b \<noteq> 0) x)"
  let ?s0 = "\<lparr>best_positions = [], best_compression_ratio = None, compressed_file = None\<rparr>"
  let ?s1 = "\<lparr>best_positions = [0, 1, 2], best_compression_ratio = Some (8 / 3),
              compressed_file = Some [3, 1, 3, 1, 2, 1, 2, 3]\<rparr>"
  let ?s2 = "\<lparr>best_positions = [0], best_compression_ratio = Some 2,
              compressed_file = Some [3, 1, 1, 1, 2, 3]\<rparr>"
  let ?blob = "[0, 0, 0, 0, 0, 0, 0, 3, 0, 0, 0, 1, 0, 0, 0, 2, 0, 0, 0, 0, 0, 0, 0, 1, 1, 2, 3] :: bytes"
  have m1: "reverse_chunks_in_memory [1, 2, 3] 1 [0, 1] = Some [1, 2, 3]"
    by (simp add: eval_reverse_chunks_in_memory)
  have m2: "reverse_chunks_in_memory [1, 2, 3] 1 [0, 1, 2] = Some [1, 2, 3]"
    by (simp add: eval_reverse_chunks_in_memory)
  have m3: "reverse_chunks_in_memory [1, 2, 3] 1 [0] = Some [1, 2, 3]"
    by (simp add: eval_reverse_chunks_in_memory)
  have k1: "build_container_65 [1, 2, 3] [0, 1] 3 = Inr ?blob"
    by (simp add: eval_container_65)
  have k2: "build_container_65 [1, 2, 3] [0, 1, 2] 3
      = Inr [0, 0, 0, 0, 0, 0, 0, 3, 0, 0, 0, 1, 0, 0, 0, 3, 0, 0, 0, 0, 0, 0, 0, 1, 0, 0, 0, 2,
             1, 2, 3]"
    by (simp add: eval_container_65)
  have k3: "build_container_65 [1, 2, 3] [0] 3
      = Inr [0, 0, 0, 0, 0, 0, 0, 3, 0, 0, 0, 1, 0, 0, 0, 1, 0, 0, 0, 0, 1, 2, 3]"
    by (simp add: eval_container_65)
  have fail: "?p65 ?blob = Inl CoderError" by simp
  have w2: "compress_with_paq ?p65 [1, 2, 3] [0, 1, 2] 3 = Some [3, 1, 3, 1, 2, 1, 2, 3]"
    by (simp add: compress_with_paq_def k2 and_then_def)
  have w3: "compress_with_paq ?p65 [1, 2, 3] [0] 3 = Some [3, 1, 1, 1, 2, 3]"
    by (simp add: compress_with_paq_def k3 and_then_def)
  have r1: "strategy_round ?p65 [1, 2, 3] ?s0 [0, 1, 2] = ?s1"
    by (simp add: strategy_round_def m2 w2 ratio_less_def)
  have r3: "strategy_round ?p65 [1, 2, 3] ?s1 [0] = ?s2"
    by (simp add: strategy_round_def m3 w3 ratio_less_def)
  have pre: "reverse_chunks_in_memory [1, 2, 3] 1 [0, 1] = Some [1, 2, 3] \<and>
     build_container_65 [1, 2, 3] [0, 1] (int (length [1, 2, 3::byte])) = Inr ?blob \<and>
     ?p65 ?blob = Inl CoderError"
    using m1 k1 fail by simp
  note T65 = coder_failure_in_search [of "[1, 2, 3]" "[0, 1]" "[1, 2, 3]" ?blob ?p65 CoderError]
  from T65 [of ?s1] pre
  have u: "strategy_round ?p65 [1, 2, 3] ?s1 [0, 1] = ?s1" by blast
  from T65 [of ?s0 "[[0, 1, 2]]" "[[0]]"] pre
  have "foldl (strategy_round ?p65 [1, 2, 3]) ?s0 ([[0, 1, 2]] @ [0, 1] # [[0]])
        = foldl (strategy_round ?p65 [1, 2, 3])
            (foldl (strategy_round ?p65 [1, 2, 3]) ?s0 [[0, 1, 2]]) [[0]]"
    by blast
  then have v: "foldl (strategy_round ?p65 [1, 2, 3]) ?s0 ([[0, 1, 2]] @ [0, 1] # [[0]]) = ?s2"
    by (simp add: r1 r3)
  let ?p94 = "\<lambda>x::bytes. if length x \<le> 17 then Inr x else Inl CoderError"
  let ?rng = "\<lambda>i::int. if i = 1 then (5::int, [0::int]) else (5, [])"
  let ?b0 = "\<lparr>best_size = 17, best_data = [0, 0, 0, 3, 0, 0, 0, 2, 0, 0, 0, 0, 0, 0, 1, 2, 3],
              best_ratio = 17 / 3\<rparr>"
  let ?blob94 = "[0, 0, 0, 3, 0, 0, 0, 2, 0, 0, 0, 5, 0, 1, 0, 0, 0, 0, 7, 4, 6] :: bytes"
  have a: "apply_calculus [1, 2, 3] 5 = [4, 7, 6]" by (simp add: apply_calculus_def)
  have r: "reverse_chunks [4, 7, 6::byte] 2 [0] = Inr [7, 4, 6]"
    by (simp add: eval_reverse_chunks)
  have c: "build_container [7, 4, 6] 2 [0] 3 5 = Inr ?blob94"
    by (simp add: eval_container)
  have pre94: "(0::int) < 2 \<and> ?rng 1 = (5, [0]) \<and>
     reverse_chunks (apply_calculus [1, 2, 3] 5) 2 [0] = Inr [7, 4, 6] \<and>
     build_container [7, 4, 6] 2 [0] (int (length [1, 2, 3::byte])) 5 = Inr ?blob94 \<and>
     ?p94 ?blob94 = Inl CoderError \<and>
     search_loop ?p94 ?rng [1, 2, 3] 2 ?b0 [] = Inr ?b0"
    using a r c by (simp add: search_loop_def)
  note T94 = coder_failure_in_search [of "[1, 2, 3]" "[0]" "[7, 4, 6]" ?blob94 ?p94 CoderError
      _ _ _ 2 ?rng 1 5 ?b0 "[]" ?b0 "[2]"]
  from T94 pre94 have "iteration ?p94 [1, 2, 3] 2 ?b0 (?rng 1) = Inl CoderError" by blast
  then have x: "iteration ?p94 [1, 2, 3] 2 ?b0 (5, [0]) = Inl CoderError" by simp
  from T94 pre94 have y: "search_loop ?p94 ?rng [1, 2, 3] 2 ?b0 ([] @ 1 # [2]) = Inl CoderError"
    by blast
  from m1 k1 u v x y show ?thesis by blast
qed

section \<open>The empty input\<close>

lemma decompress_data_container:
  assumes "list_all (in_uint 4) [original_size, chunk_size, calculus_value]"
    and "list_all (in_uint 4) positions" and "length positions \<le> 65535"
    and "build_container data chunk_size positions original_size calculus_value = Inr container"
    and "paq_decompress blob = Inr container"
  shows "decompress_data paq_decompress blob
         = (case restore (original_size, chunk_size, calculus_value, positions, data) of
              Inl e \<Rightarrow> Inl NameError | Inr restored \<Rightarrow> Inr restored)"
proof -
  have "parse_container container
          = Inr (original_size, chunk_size, calculus_value, positions, data)"
    using assms(4) build_container_ok [OF assms(1-3), of data]
      parse_container_built [OF assms(1-3), of data] by simp
  then show ?thesis by (simp add: decompress_data_def assms(5) and_then_def)
qed

text \<open>
  Claim C9 gives the empty input one chunk of padding zeros and a pipeline that round-trips
  without error.  \<open>reverse_chunks\<close> splits the empty input into no chunk at all and pads
  nothing, and \<open>find_best_iteration\<close> divides by the length of the input.
\<close>

theorem empty_input_counterexample:
  "chunk_list ([] :: bytes) 4 = Inr [] \<and> length ([] :: bytes list) \<noteq> 1 \<and>
   reverse_chunks ([] :: bytes) 4 [] = Inr [] \<and>
   find_best_iteration Inr (\<lambda>i. (5, [])) [] 1 4 = Inl ZeroDivisionError"
proof -
  have c: "chunk_list ([] :: bytes) 4 = Inr []"
    by (simp add: chunk_list_pos chunks_of_Nil)
  have r: "reverse_chunks ([] :: bytes) 4 [] = Inr []"
    by (simp add: reverse_chunks_pos chunks_of_Nil)
  have b: "build_container [] 4 [] 0 0 = Inr [0, 0, 0, 0, 0, 0, 0, 4, 0, 0, 0, 0, 0, 0]"
    by (simp add: eval_container)
  have "initial_best Inr [] 4 = Inl ZeroDivisionError"
    by (simp add: initial_best_def compress_data_def b and_then_def py_truediv_def)
  then have "find_best_iteration Inr (\<lambda>i. (5, [])) [] 1 4 = Inl ZeroDivisionError"
    by (simp add: find_best_iteration_def and_then_def)
  with c r show ?thesis by simp
qed

text \<open>
  Claim C9, amended.  For the empty input and any chunk size \<open>c > 0\<close>: \<open>reverse_chunks\<close>
  makes no chunk (\<open>numChunks = 0\<close>, nothing is padded) and returns the empty byte string;
  and, for \<open>c < 2 ** 32\<close> and a coder whose \<open>decompress\<close> inverts its \<open>compress\<close>,
  \<open>compress_data\<close> on the empty payload with no positions followed by \<open>decompress_data\<close>
  returns the empty output without error.
\<close>

theorem empty_input_round_trip:
  assumes "0 < c" and "c < 2 ^ 32"
    and "\<forall>x. \<exists>y. paq_compress x = Inr y \<and> paq_decompress y = Inr x"
  shows "chunk_list ([] :: bytes) c = Inr [] \<and>
         reverse_chunks ([] :: bytes) c ps = Inr [] \<and>
         (\<exists>blob. compress_data paq_compress [] c [] (int (length ([] :: bytes))) 0 = Inr blob \<and>
                 decompress_data paq_decompress blob = Inr [])"
proof -
  have cl: "chunk_list ([] :: bytes) c = Inr []"
    using assms(1) by (simp add: chunk_list_pos chunks_of_Nil)
  have rc: "reverse_chunks ([] :: bytes) c qs = Inr []" for qs
    using assms(1) by (simp add: reverse_chunks_pos chunks_of_Nil foldl_reverse_at_Nil)
  have h: "list_all (in_uint 4) [0, c, 0]" using assms(1,2) by (simp add: in_uint_def)
  have p: "list_all (in_uint 4) []" and n: "length ([] :: int list) \<le> 65535" by simp_all
  obtain container where k: "build_container [] c [] 0 0 = Inr container"
    using build_container_ok [OF h p n, of "[]"] by blast
  obtain blob where b: "paq_compress container = Inr blob" "paq_decompress blob = Inr container"
    using assms(3) by blast
  have comp: "compress_data paq_compress [] c [] (int (length ([] :: bytes))) 0 = Inr blob"
    by (simp add: compress_data_def k and_then_def b(1))
  have "decompress_data paq_decompress blob
          = (case restore (0, c, 0, [], []) of Inl e \<Rightarrow> Inl NameError | Inr r \<Rightarrow> Inr r)"
    by (rule decompress_data_container [where paq_decompress = paq_decompress and blob = blob, OF h p n k b(2)])
  then have "decompress_data paq_decompress blob = Inr []"
    by (simp add: restore_def rc and_then_def apply_calculus_def)
  then show ?thesis using cl rc comp by blast
qed

text \<open>
  The empty input at chunk size 4, with a coder that stores its input: the container is
  the 14-byte header.
\<close>

theorem empty_input_round_trip_witness:
  "(0::int) < 4 \<and> (4::int) < 2 ^ 32 \<and>
   (\<forall>x::bytes. \<exists>y. (Inr x :: py_error + bytes) = Inr y \<and> (Inr y :: py_error + bytes) = Inr x) \<and>
   chunk_list ([] :: bytes) 4 = Inr [] \<and>
   reverse_chunks ([] :: bytes) 4 [0] = Inr [] \<and>
   compress_data Inr [] 4 [] 0 0 = Inr [0, 0, 0, 0, 0, 0, 0, 4, 0, 0, 0, 0, 0, 0] \<and>
   (\<exists>blob. compress_data Inr [] 4 [] (int (length ([] :: bytes))) 0 = Inr blob \<and>
           decompress_data Inr blob = Inr [])"
proof -
  have c: "(0::int) < 4" "(4::int) < 2 ^ 32" by simp_all
  have l: "\<forall>x::bytes. \<exists>y. (Inr x :: py_error + bytes) = Inr y \<and> (Inr y :: py_error + bytes) = Inr x"
    by simp
  have b: "build_container [] 4 [] 0 0 = Inr [0, 0, 0, 0, 0, 0, 0, 4, 0, 0, 0, 0, 0, 0]"
    by (simp add: eval_container)
  have k: "compress_data Inr [] 4 [] 0 0 = Inr [0, 0, 0, 0, 0, 0, 0, 4, 0, 0, 0, 0, 0, 0]"
    by (simp add: compress_data_def b and_then_def)
  note T = empty_input_round_trip [OF c l, of "[0]"]
  from T c l k show ?thesis by blast
qed

section \<open>The padding of Black\_Hole\_65.py\<close>

lemma chunks_of_ne: "0 < c \<Longrightarrow> xs \<noteq> [] \<Longrightarrow> chunks_of c xs \<noteq> []"
  by (simp add: chunks_of_step)

lemma chunks_of_empty_iff: "0 < c \<Longrightarrow> chunks_of c xs = [] \<longleftrightarrow> xs = []"
  using chunks_of_ne [of c xs] by (auto simp: chunks_of_Nil)

lemma padded_chunks:
  assumes "0 < c" and "xs \<noteq> []"
  shows "length (last (chunks_of c xs)) \<le> c \<and>
         map length (padded c (chunks_of c xs)) = replicate (length (chunks_of c xs)) c \<and>
         concat (padded c (chunks_of c xs))
           = xs @ replicate (length (chunks_of c xs) * c - length xs) 0"
  using assms(2)
proof (induction xs rule: length_induct)
  case (1 xs)
  have step: "chunks_of c xs = take c xs # chunks_of c (drop c xs)"
    using assms(1) 1(2) by (rule chunks_of_step)
  show ?case
  proof (cases "drop c xs = []")
    case True
    then have "chunks_of c xs = [xs]" using step by (simp add: chunks_of_Nil)
    moreover have "length xs \<le> c" using True by simp
    ultimately show ?thesis by (simp add: padded_def)
  next
    case False
    let ?rest = "chunks_of c (drop c xs)"
    have ne: "?rest \<noteq> []" using assms(1) False by (rule chunks_of_ne)
    have lt: "length (drop c xs) < length xs" using False assms(1) 1(2) by simp
    have big: "c < length xs" using False by simp
    from 1(1) lt False
    have ih: "length (last ?rest) \<le> c"
      "map length (padded c ?rest) = replicate (length ?rest) c"
      "concat (padded c ?rest) = drop c xs @ replicate (length ?rest * c - length (drop c xs)) 0"
      by blast+
    have p: "padded c (chunks_of c xs) = take c xs # padded c ?rest"
      using ne by (simp add: step padded_def)
    have l: "length (take c xs) = c" using big by simp
    have total: "length (drop c xs) \<le> length ?rest * c"
    proof -
      have "length (concat (padded c ?rest)) = length ?rest * c"
        using ih(2) by (simp add: length_concat sum_list_replicate)
      then show ?thesis using ih(3) by simp
    qed
    have "concat (padded c (chunks_of c xs))
            = take c xs @ drop c xs @ replicate (length ?rest * c - length (drop c xs)) 0"
      by (simp add: p ih(3))
    also have "\<dots> = xs @ replicate (length ?rest * c - length (drop c xs)) 0"
      by simp
    also have "length ?rest * c - length (drop c xs) = length (chunks_of c xs) * c - length xs"
      using big total by (simp add: step)
    finally have c3: "concat (padded c (chunks_of c xs))
            = xs @ replicate (length (chunks_of c xs) * c - length xs) 0" .
    have c1: "length (last (chunks_of c xs)) \<le> c" using ne ih(1) by (simp add: step)
    have "map length (take c xs # padded c ?rest) = replicate (Suc (length ?rest)) c"
      using l ih(2) by simp
    moreover have "length (chunks_of c xs) = Suc (length ?rest)" by (simp add: step)
    ultimately have c2:
      "map length (padded c (chunks_of c xs)) = replicate (length (chunks_of c xs)) c"
      by (simp only: p)
    from c1 c2 c3 show ?thesis by blast
  qed
qed

lemma pad_last_chunks:
  assumes "0 < c" and "xs \<noteq> []"
  shows "pad_last (chunks_of (nat c) xs) c = Inr (padded (nat c) (chunks_of (nat c) xs))"
proof -
  have n: "0 < nat c" using assms(1) by simp
  have ne: "chunks_of (nat c) xs \<noteq> []" using n assms(2) by (rule chunks_of_ne)
  have le: "length (last (chunks_of (nat c) xs)) \<le> nat c"
    using padded_chunks [OF n assms(2)] by blast
  show ?thesis
  proof (cases "int (length (last (chunks_of (nat c) xs))) < c")
    case True
    then have "nat (c - int (length (last (chunks_of (nat c) xs))))
               = nat c - length (last (chunks_of (nat c) xs))" by linarith
    then show ?thesis using ne True by (simp add: pad_last_def padded_def)
  next
    case False
    then have "length (last (chunks_of (nat c) xs)) = nat c" using le by linarith
    then show ?thesis using ne False by (simp add: pad_last_def padded_def)
  qed
qed

lemma reverse_chunks_in_memory_nonempty:
  assumes "0 < c" and "xs \<noteq> []"
  shows "reverse_chunks_in_memory xs c ps
         = Some (concat (foldl reverse_at (padded (nat c) (chunks_of (nat c) xs)) ps))"
  by (simp add: reverse_chunks_in_memory_def chunk_list_pos [OF assms(1)]
      pad_last_chunks [OF assms] and_then_def)

lemma reverse_chunks_in_memory_empty: "reverse_chunks_in_memory [] c ps = None"
proof -
  consider "c = 0" | "c < 0" | "0 < c" by linarith
  then show ?thesis
  proof cases
    case 1
    then show ?thesis by (simp add: reverse_chunks_in_memory_def chunk_list_zero and_then_def)
  next
    case 2
    then show ?thesis
      by (simp add: reverse_chunks_in_memory_def chunk_list_neg and_then_def pad_last_def)
  next
    case 3
    then show ?thesis
      by (simp add: reverse_chunks_in_memory_def chunk_list_pos chunks_of_Nil and_then_def
          pad_last_def)
  qed
qed

lemma length_reverse_chunks_in_memory:
  assumes "0 < c" and "xs \<noteq> []"
  shows "\<exists>t. reverse_chunks_in_memory xs c ps = Some t \<and>
             int (length t) = num_chunks (length xs) c * c"
proof -
  let ?cs = "padded (nat c) (chunks_of (nat c) xs)"
  have n: "0 < nat c" using assms(1) by simp
  have "map length (foldl reverse_at ?cs ps) = replicate (length (chunks_of (nat c) xs)) (nat c)"
    using padded_chunks [OF n assms(2)] by (simp add: map_length_foldl_reverse_at)
  then have "length (concat (foldl reverse_at ?cs ps)) = length (chunks_of (nat c) xs) * nat c"
    by (simp add: length_concat sum_list_replicate)
  then have "int (length (concat (foldl reverse_at ?cs ps)))
             = int (length (chunks_of (nat c) xs)) * c"
    using assms(1) by simp
  then show ?thesis
    by (simp add: reverse_chunks_in_memory_nonempty [OF assms]
        length_chunks_of_num_chunks [OF assms(1)])
qed

lemma reverse_chunks_in_memory_no_positions:
  assumes "0 < c" and "xs \<noteq> []"
  shows "reverse_chunks_in_memory xs c []
         = Some (xs @ replicate (nat (num_chunks (length xs) c * c) - length xs) 0)"
proof -
  have n: "0 < nat c" using assms(1) by simp
  have "nat (num_chunks (length xs) c * c) = length (chunks_of (nat c) xs) * nat c"
    using assms(1) length_chunks_of_num_chunks [OF assms(1), of xs, symmetric]
    by (simp add: nat_mult_distrib)
  then show ?thesis
    using padded_chunks [OF n assms(2)]
    by (simp add: reverse_chunks_in_memory_nonempty [OF assms])
qed


lemma padded_scenario:
  "reverse_chunks_in_memory [b] 4 [] = Some [b, 0, 0, 0] \<and>
   reverse_chunks_in_memory [b] 4 [0] = Some [0, 0, 0, b] \<and>
   restore_chunks [0, 0, 0, b] 4 [0] 1 = Inr [b]"
  by (simp add: eval_reverse_chunks_in_memory restore_chunks_def py_slice_def numeral_3_eq_3)

text \<open>
  Claim C3 gives the output of the transform the length \<open>numChunks * c\<close> for every payload.
  \<open>reverse_chunks_in_memory\<close> of Black\_Hole\_65.py returns \<open>None\<close> on the empty payload
  (\<open>chunked_data[-1]\<close> raises, the handler returns \<open>None\<close>), and \<open>reverse_chunks\<close> of
  Black\_Hole\_94.py pads nothing: one byte at chunk size 4 gives one byte, not four.
\<close>

theorem unpadded_transform_counterexample:
  "reverse_chunks_in_memory [] 4 [0] = None \<and>
   reverse_chunks [7::byte] 4 [0] = Inr [7] \<and>
   int (length [7::byte]) \<noteq> num_chunks (length [7::byte]) 4 * 4"
  by (simp add: reverse_chunks_in_memory_empty eval_reverse_chunks num_chunks_def)

text \<open>
  Claim C3, amended.  For every non-empty payload \<open>P\<close> of length \<open>N\<close> and every chunk size
  \<open>c > 0\<close>, the output of \<open>reverse_chunks_in_memory\<close> (Black\_Hole\_65.py) has
  \<open>numChunks * c\<close> bytes with \<open>numChunks = ceil(N / c)\<close>, the last chunk filled with zero
  bytes: with no positions it is \<open>P\<close> followed by the zero bytes.  For \<open>N = 1\<close> and
  \<open>c = 4\<close> the padded chunk is \<open>[b, 0, 0, 0]\<close>, position 0 turns it into
  \<open>[0, 0, 0, b]\<close>, and the chunk restoring of \<open>decompress_and_restore_paq\<close> at chunk size
  4, position 0 and original size 1 gives \<open>[b]\<close>.  \<open>reverse_chunks\<close> of Black\_Hole\_94.py
  does not pad: its output has \<open>N\<close> bytes.
\<close>

theorem padded_transform_length:
  assumes "P \<noteq> []" and "0 < c"
  shows "(\<exists>t. reverse_chunks_in_memory P c ps = Some t \<and>
              int (length t) = num_chunks (length P) c * c) \<and>
         reverse_chunks_in_memory P c []
           = Some (P @ replicate (nat (num_chunks (length P) c * c) - length P) 0) \<and>
         reverse_chunks_in_memory [b] 4 [] = Some [b, 0, 0, 0] \<and>
         reverse_chunks_in_memory [b] 4 [0] = Some [0, 0, 0, b] \<and>
         restore_chunks [0, 0, 0, b] 4 [0] 1 = Inr [b] \<and>
         (\<exists>t. reverse_chunks P c ps = Inr t \<and> length t = length P)"
proof -
  obtain t where t: "reverse_chunks P c ps = Inr t"
    using assms(2) by (simp add: reverse_chunks_pos)
  then have "length t = length P" using assms(2) by (rule length_reverse_chunks [rotated])
  then show ?thesis
    using t length_reverse_chunks_in_memory [OF assms(2,1), of ps]
      reverse_chunks_in_memory_no_positions [OF assms(2,1)] padded_scenario [of b]
    by blast
qed

text \<open>
  Five bytes at chunk size 2 with positions \<open>[0, 2]\<close>: three chunks, six bytes.
\<close>

theorem padded_transform_length_witness:
  "[1, 2, 3, 4, 5::byte] \<noteq> [] \<and> (0::int) < 2 \<and>
   num_chunks (length [1, 2, 3, 4, 5::byte]) 2 = 3 \<and>
   reverse_chunks_in_memory [1, 2, 3, 4, 5] 2 [0, 2] = Some [2, 1, 3, 4, 0, 5] \<and>
   (\<exists>t. reverse_chunks_in_memory [1, 2, 3, 4, 5] 2 [0, 2] = Some t \<and>
        int (length t) = num_chunks (length [1, 2, 3, 4, 5::byte]) 2 * 2) \<and>
   reverse_chunks_in_memory [7] 4 [0] = Some [0, 0, 0, 7] \<and>
   restore_chunks [0, 0, 0, 7] 4 [0] 1 = Inr [7]"
proof -
  have h: "[1, 2, 3, 4, 5::byte] \<noteq> []" "(0::int) < 2" by simp_all
  have n: "num_chunks (length [1, 2, 3, 4, 5::byte]) 2 = 3" by (simp add: num_chunks_def)
  have e: "reverse_chunks_in_memory [1, 2, 3, 4, 5] 2 [0, 2] = Some [2, 1, 3, 4, 0, 5]"
    by (simp add: eval_reverse_chunks_in_memory)
  note T = padded_transform_length [OF h, of "[0, 2]" 7]
  from T h n e show ?thesis by blast
qed

section \<open>Compression followed by decompression (Black\_Hole\_94.py)\<close>

text \<open>
  With a coder whose \<open>decompress\<close> inverts its \<open>compress\<close>, \<open>decompress_data\<close> gives back
  the input of every candidate the search builds, whatever positions and calculus value
  the candidate uses, as long as the values fit the fields of the header.
\<close>

lemma pipeline_round_trip:
  assumes "0 < c" and "c < 2 ^ 32" and "length d < 2 ^ 32"
    and "0 \<le> v" and "v < 2 ^ 32"
    and "list_all (in_uint 4) ps" and "length ps \<le> 65535"
    and "\<forall>x. \<exists>y. paq_compress x = Inr y \<and> paq_decompress y = Inr x"
  shows "\<exists>blob. candidate paq_compress d c (v, ps) = Inr blob \<and>
                decompress_data paq_decompress blob = Inr d"
proof -
  obtain t where t: "reverse_chunks d c ps = Inr t"
    using assms(1) by (simp add: reverse_chunks_pos)
  then have inv: "reverse_chunks t c ps = Inr d"
    using reverse_chunks_twice [OF assms(1), of d ps] by (simp add: and_then_def)
  have comm: "reverse_chunks (apply_calculus x v) c ps
           = and_then (reverse_chunks x c ps) (\<lambda>r. Inr (apply_calculus r v))" for x
    unfolding apply_calculus_def by (rule reverse_chunks_map)
  have fwd: "reverse_chunks (apply_calculus d v) c ps = Inr (apply_calculus t v)"
    using comm [of d] t by (simp add: and_then_def)
  have bwd: "reverse_chunks (apply_calculus t v) c ps = Inr (apply_calculus d v)"
    using comm [of t] inv by (simp add: and_then_def)
  have h: "list_all (in_uint 4) [int (length d), c, v]"
    using assms(1-5) by (simp add: in_uint_def)
  obtain container where k:
    "build_container (apply_calculus t v) c ps (int (length d)) v = Inr container"
    using build_container_ok [OF h assms(6,7)] by blast
  obtain blob where b: "paq_compress container = Inr blob" "paq_decompress blob = Inr container"
    using assms(8) by blast
  have cand: "candidate paq_compress d c (v, ps) = Inr blob"
    by (simp add: candidate_def fwd compress_data_def k b(1) and_then_def)
  have "decompress_data paq_decompress blob
          = (case restore (int (length d), c, v, ps, apply_calculus t v) of
               Inl e \<Rightarrow> Inl NameError | Inr r \<Rightarrow> Inr r)"
    by (rule decompress_data_container [where paq_decompress = paq_decompress and blob = blob,
          OF h assms(6,7) k b(2)])
  then have "decompress_data paq_decompress blob = Inr d"
    by (simp add: restore_def bwd and_then_def apply_calculus_twice)
  with cand show ?thesis by blast
qed

end
